theory Spec2Isabelle
  imports Main "HOL-Library.Word" "HOL-Library.Char_ord" "HOL-Library.List_Lexorder"
begin

unbundle bit_operations_syntax

section \<open>The Patricia trie of package index\<close>

text \<open>
  The trie stores IP prefixes as runs of bits packed into bytes, most significant bit
  first. Go's \<^verbatim>\<open>byte\<close> is an 8-bit word; positions and lengths are Go \<^verbatim>\<open>int\<close>s that
  are never negative in any call made by \<^verbatim>\<open>Insert\<close>, \<^verbatim>\<open>Lookup\<close> or the index reader
  (a valid \<^verbatim>\<open>netip.Prefix\<close> has \<^verbatim>\<open>0 \<le> Bits()\<close>, the reader takes lengths from a
  \<^verbatim>\<open>uint8\<close>), so they are natural numbers here. A \<^verbatim>\<open>*TrieNode\<close> that may be nil is a
  \<open>TrieNode option\<close>; a Go string is a list of 8-bit characters.
\<close>

type_synonym byte = "8 word"

record PrefixData =
  CountryCode :: string
  PrefixStr :: string

datatype TrieNode = TrieNode
  (Prefix: "byte list")
  (PrefixLen: nat)
  (Data: "PrefixData option")
  (Child0: "TrieNode option")
  (Child1: "TrieNode option")

record Trie =
  Root :: "TrieNode option"
  IsIPv6 :: bool
  Count :: nat

text \<open>
  A \<^verbatim>\<open>netip.Addr\<close> is its family flag together with the bytes that \<^verbatim>\<open>As4()\<close>
  (4 bytes) or \<^verbatim>\<open>As16()\<close> (16 bytes) return; a valid \<^verbatim>\<open>netip.Prefix\<close> is an address
  and the number of its leading bits.
\<close>

record Addr =
  Is6 :: bool
  AsBytes :: "byte list"

record NetPrefix =
  PAddr :: Addr
  Bits :: nat

datatype error =
    ErrIPVersionMismatch
  | ErrInvalidCIDR
  | ErrNilDereference

subsection \<open>Bit helpers\<close>

text \<open>\<^verbatim>\<open>getBit\<close>: bit \<open>pos\<close> of \<open>data\<close>, counted from the most significant bit of byte 0;
  0 once \<open>pos / 8\<close> is past the end of the slice.\<close>

definition getBit :: "byte list \<Rightarrow> nat \<Rightarrow> nat" where
  "getBit data pos =
     (let byteIdx = pos div 8; bitIdx = 7 - (pos mod 8)
      in if byteIdx \<ge> length data then 0
         else unat ((drop_bit bitIdx (data ! byteIdx)) AND 1))"

definition getBitFromSlice :: "byte list \<Rightarrow> nat \<Rightarrow> nat" where
  "getBitFromSlice data pos = getBit data pos"

text \<open>\<^verbatim>\<open>extractBits\<close>: a fresh buffer of \<open>(length + 7) / 8\<close> zero bytes into which the
  loop copies the one-bits of \<open>data\<close> at \<open>start, start + 1, ...\<close>; nil for no bits.\<close>

definition extractStep :: "byte list \<Rightarrow> nat \<Rightarrow> nat \<Rightarrow> byte list \<Rightarrow> byte list" where
  "extractStep data start i result =
     (if getBit data (start + i) = 1
      then (let byteIdx = i div 8; bitIdx = 7 - (i mod 8)
            in result[byteIdx := (result ! byteIdx) OR (push_bit bitIdx 1)])
      else result)"

definition extractBits :: "byte list \<Rightarrow> nat \<Rightarrow> nat \<Rightarrow> byte list" where
  "extractBits data start len =
     (if len \<le> 0 then []
      else fold (extractStep data start) [0..<len] (replicate ((len + 7) div 8) 0))"

definition extractBitsFromSlice :: "byte list \<Rightarrow> nat \<Rightarrow> nat \<Rightarrow> byte list" where
  "extractBitsFromSlice data start len = extractBits data start len"

subsection \<open>Nodes\<close>

text \<open>\<^verbatim>\<open>node.Children[bit]\<close> with \<open>bit\<close> the 0 or 1 that \<^verbatim>\<open>getBit\<close> returns.\<close>

definition children :: "TrieNode \<Rightarrow> nat \<Rightarrow> TrieNode option" where
  "children node b = (if b = 0 then Child0 node else Child1 node)"

text \<open>The assignments \<^verbatim>\<open>node.Data = data\<close> and \<^verbatim>\<open>node.Children[bit] = c\<close>. Every node
  has one owner, so an assignment through the pointer is the rebuilt node put back into
  its parent.\<close>

definition setData :: "TrieNode \<Rightarrow> PrefixData option \<Rightarrow> TrieNode" where
  "setData node d = TrieNode (Prefix node) (PrefixLen node) d (Child0 node) (Child1 node)"

definition setChild :: "TrieNode \<Rightarrow> nat \<Rightarrow> TrieNode \<Rightarrow> TrieNode" where
  "setChild node b c =
     (if b = 0 then TrieNode (Prefix node) (PrefixLen node) (Data node) (Some c) (Child1 node)
      else TrieNode (Prefix node) (PrefixLen node) (Data node) (Child0 node) (Some c))"

definition NewTrie :: "bool \<Rightarrow> Trie" where
  "NewTrie isIPv6 = \<lparr>Root = Some (TrieNode [] 0 None None None), IsIPv6 = isIPv6, Count = 0\<rparr>"

subsection \<open>Insert\<close>

text \<open>The loop of \<^verbatim>\<open>insertRecursive\<close> that counts the common leading bits of the new
  prefix (from \<open>pos\<close>) and the child's edge; \<open>commonLen\<close> and \<open>i\<close> advance together.\<close>

function commonLoop :: "byte list \<Rightarrow> nat \<Rightarrow> byte list \<Rightarrow> nat \<Rightarrow> nat \<Rightarrow> nat" where
  "commonLoop bits pos childBits maxCheck i =
     (if i < maxCheck then
        (if getBit bits (pos + i) \<noteq> getBitFromSlice childBits i then i
         else commonLoop bits pos childBits maxCheck (i + 1))
      else i)"
  by pat_completeness auto
termination
  by (relation "measure (\<lambda>(bits, pos, childBits, maxCheck, i). maxCheck - i)") auto

declare commonLoop.simps [simp del]

function insertRecursive ::
  "TrieNode \<Rightarrow> byte list \<Rightarrow> nat \<Rightarrow> nat \<Rightarrow> PrefixData \<Rightarrow> TrieNode" where
  "insertRecursive node bits pos prefixLen data =
     (if pos = prefixLen then setData node (Some data)
      else
        let b = getBit bits pos in
        case children node b of
          None \<Rightarrow>
            setChild node b
              (TrieNode (extractBits bits pos (prefixLen - pos)) (prefixLen - pos)
                 (Some data) None None)
        | Some child \<Rightarrow>
            let childBits = Prefix child;
                childLen = PrefixLen child;
                remainingLen = prefixLen - pos;
                commonLen = commonLoop bits pos childBits (min remainingLen childLen) 0
            in
            if commonLen = childLen then
              (if commonLen = remainingLen then setChild node b (setData child (Some data))
               else setChild node b (insertRecursive child bits (pos + childLen) prefixLen data))
            else
              let newParent = TrieNode (extractBits bits pos commonLen) commonLen None None None;
                  oldChildBit = getBitFromSlice childBits commonLen;
                  child' = TrieNode (extractBitsFromSlice childBits commonLen (childLen - commonLen))
                             (childLen - commonLen) (Data child) (Child0 child) (Child1 child);
                  newParent = setChild newParent oldChildBit child'
              in
              if commonLen = remainingLen then setChild node b (setData newParent (Some data))
              else
                let newLeafBit = getBit bits (pos + commonLen);
                    newLeaf = TrieNode
                      (extractBits bits (pos + commonLen) (remainingLen - commonLen))
                      (remainingLen - commonLen) (Some data) None None
                in setChild node b (setChild newParent newLeafBit newLeaf))"
  by pat_completeness auto
termination
  apply (relation "measure (\<lambda>(node, bits, pos, prefixLen, data). size node)")
   apply simp
  apply (case_tac node)
  apply (simp add: children_def split: if_splits)
  done

declare insertRecursive.simps [simp del]

definition prefixToBits :: "NetPrefix \<Rightarrow> byte list" where
  "prefixToBits prefix = AsBytes (PAddr prefix)"

definition addrToBits :: "Addr \<Rightarrow> byte list" where
  "addrToBits addr = AsBytes addr"

text \<open>\<^verbatim>\<open>Insert\<close>: the family check, the descent from the root, and \<^verbatim>\<open>t.Count++\<close>. A nil
  root (only a hand-made or loaded trie can have one) is a nil dereference in Go.\<close>

definition Insert :: "Trie \<Rightarrow> NetPrefix \<Rightarrow> PrefixData \<Rightarrow> error + Trie" where
  "Insert t prefix data =
     (if Is6 (PAddr prefix) \<noteq> IsIPv6 t then Inl ErrIPVersionMismatch
      else case Root t of
             None \<Rightarrow> Inl ErrNilDereference
           | Some root \<Rightarrow>
               Inr (t\<lparr>Root := Some (insertRecursive root (prefixToBits prefix) 0 (Bits prefix) data),
                       Count := Count t + 1\<rparr>))"

subsection \<open>Lookup\<close>

text \<open>The loop that compares the child's edge with the address bits from \<open>pos\<close>.\<close>

function matchLoop :: "byte list \<Rightarrow> nat \<Rightarrow> TrieNode \<Rightarrow> nat \<Rightarrow> nat \<Rightarrow> bool" where
  "matchLoop bits pos child childLen i =
     (if i < childLen \<and> i < PrefixLen child then
        (if getBit bits (pos + i) \<noteq> getBitFromSlice (Prefix child) i then False
         else matchLoop bits pos child childLen (i + 1))
      else True)"
  by pat_completeness auto
termination
  by (relation "measure (\<lambda>(bits, pos, child, childLen, i). childLen - i)") auto

declare matchLoop.simps [simp del]

text \<open>The body of \<^verbatim>\<open>for node != nil\<close> in \<^verbatim>\<open>lookupRecursive\<close>, entered with a non-nil node.\<close>

function lookupLoop ::
  "TrieNode \<Rightarrow> byte list \<Rightarrow> nat \<Rightarrow> nat \<Rightarrow> PrefixData option \<Rightarrow> PrefixData option" where
  "lookupLoop node bits pos maxBits lastMatch =
     (let lastMatch = (case Data node of Some d \<Rightarrow> Some d | None \<Rightarrow> lastMatch) in
      if pos \<ge> maxBits then lastMatch
      else
        case children node (getBit bits pos) of
          None \<Rightarrow> lastMatch
        | Some child \<Rightarrow>
            let childLen = (if pos + PrefixLen child > maxBits then maxBits - pos
                            else PrefixLen child)
            in
            if \<not> matchLoop bits pos child childLen 0 then lastMatch
            else lookupLoop child bits (pos + PrefixLen child) maxBits lastMatch)"
  by pat_completeness auto
termination
  apply (relation "measure (\<lambda>(node, bits, pos, maxBits, lastMatch). size node)")
   apply simp
  apply (case_tac node)
  apply (simp add: children_def split: if_splits)
  done

declare lookupLoop.simps [simp del]

definition lookupRecursive ::
  "TrieNode option \<Rightarrow> byte list \<Rightarrow> nat \<Rightarrow> nat \<Rightarrow> PrefixData option" where
  "lookupRecursive node bits pos maxBits =
     (case node of None \<Rightarrow> None | Some n \<Rightarrow> lookupLoop n bits pos maxBits None)"

definition Lookup :: "Trie \<Rightarrow> Addr \<Rightarrow> PrefixData option" where
  "Lookup t ip =
     (if Is6 ip \<noteq> IsIPv6 t then None
      else
        let bits = addrToBits ip;
            maxBits = (if IsIPv6 t then 128 else 32)
        in lookupRecursive (Root t) bits 0 maxBits)"

subsection \<open>What a trie holds\<close>

text \<open>The bits \<open>start, ..., start + len - 1\<close> of a byte slice, as \<^verbatim>\<open>getBit\<close> reads them.\<close>

definition bitsOf :: "byte list \<Rightarrow> nat \<Rightarrow> nat \<Rightarrow> nat list" where
  "bitsOf data start len = map (\<lambda>i. getBit data (start + i)) [0..<len]"

text \<open>The edge of a node: the \<open>PrefixLen\<close> bits consumed on entering it.\<close>

definition edge :: "TrieNode \<Rightarrow> nat list" where
  "edge node = bitsOf (Prefix node) 0 (PrefixLen node)"

text \<open>The records stored at or below a node, each with the bits on the path from the
  node down to it.\<close>

fun ents :: "TrieNode \<Rightarrow> (nat list \<times> PrefixData) list" where
  "ents (TrieNode p l d c0 c1) =
     (case d of None \<Rightarrow> [] | Some v \<Rightarrow> [([], v)])
     @ (case c0 of None \<Rightarrow> [] | Some c \<Rightarrow> map (\<lambda>(k, v). (edge c @ k, v)) (ents c))
     @ (case c1 of None \<Rightarrow> [] | Some c \<Rightarrow> map (\<lambda>(k, v). (edge c @ k, v)) (ents c))"

text \<open>The shape \<^verbatim>\<open>insertRecursive\<close> maintains below a node that ends at bit \<open>pos\<close>: a
  child hangs in the slot of its first edge bit, its edge is not empty, and no path
  is longer than \<open>maxBits\<close>.\<close>

fun shaped :: "TrieNode \<Rightarrow> nat \<Rightarrow> nat \<Rightarrow> bool" where
  "shaped (TrieNode p l d c0 c1) pos maxBits =
     ((case c0 of None \<Rightarrow> True
       | Some c \<Rightarrow> 0 < PrefixLen c \<and> getBit (Prefix c) 0 = 0 \<and> pos + PrefixLen c \<le> maxBits
                  \<and> shaped c (pos + PrefixLen c) maxBits)
      \<and> (case c1 of None \<Rightarrow> True
          | Some c \<Rightarrow> 0 < PrefixLen c \<and> getBit (Prefix c) 0 = 1 \<and> pos + PrefixLen c \<le> maxBits
                     \<and> shaped c (pos + PrefixLen c) maxBits))"

text \<open>The entries of a subtree seen from above an edge \<open>e\<close>; the entry of a node's own
  record; the entries below one child slot; the shape condition of one child slot.\<close>

definition pre :: "nat list \<Rightarrow> (nat list \<times> PrefixData) set \<Rightarrow> (nat list \<times> PrefixData) set" where
  "pre e S = (\<lambda>(k, v). (e @ k, v)) ` S"

definition dataS :: "PrefixData option \<Rightarrow> (nat list \<times> PrefixData) set" where
  "dataS d = (case d of None \<Rightarrow> {} | Some v \<Rightarrow> {([], v)})"

definition slotS :: "TrieNode option \<Rightarrow> (nat list \<times> PrefixData) set" where
  "slotS s = (case s of None \<Rightarrow> {} | Some c \<Rightarrow> pre (edge c) (set (ents c)))"

definition slotOK :: "nat \<Rightarrow> TrieNode option \<Rightarrow> nat \<Rightarrow> nat \<Rightarrow> bool" where
  "slotOK b s pos maxBits =
     (case s of
        None \<Rightarrow> True
      | Some c \<Rightarrow> 0 < PrefixLen c \<and> getBit (Prefix c) 0 = b \<and> pos + PrefixLen c \<le> maxBits
                 \<and> shaped c (pos + PrefixLen c) maxBits)"

text \<open>A run of bits is a prefix of another.\<close>

definition bitPrefix :: "nat list \<Rightarrow> nat list \<Rightarrow> bool" where
  "bitPrefix k A = (take (length k) A = k)"

subsection \<open>Sequences of inserts and what the specification says about them\<close>

text \<open>The callers insert one prefix after the other and stop at the first error.\<close>

fun insertAll :: "Trie \<Rightarrow> (NetPrefix \<times> PrefixData) list \<Rightarrow> error + Trie" where
  "insertAll t [] = Inr t"
| "insertAll t ((p, d) # ps) =
     (case Insert t p d of Inl e \<Rightarrow> Inl e | Inr t' \<Rightarrow> insertAll t' ps)"

text \<open>The width of a family, the key of a prefix (its leading \<open>Bits\<close> bits), and a
  prefix containing an address: the key is a prefix of the address bits.\<close>

definition familyBits :: "bool \<Rightarrow> nat" where
  "familyBits isIPv6 = (if isIPv6 then 128 else 32)"

definition prefixKey :: "NetPrefix \<Rightarrow> nat list" where
  "prefixKey p = bitsOf (prefixToBits p) 0 (Bits p)"

definition addrKey :: "Addr \<Rightarrow> nat list" where
  "addrKey a = bitsOf (addrToBits a) 0 (familyBits (Is6 a))"

definition contains :: "NetPrefix \<Rightarrow> Addr \<Rightarrow> bool" where
  "contains p a = bitPrefix (prefixKey p) (addrKey a)"

text \<open>A prefix of the family \<open>isIPv6\<close>, as \<^verbatim>\<open>netip\<close> builds them.\<close>

definition validPrefix :: "bool \<Rightarrow> NetPrefix \<Rightarrow> bool" where
  "validPrefix isIPv6 p = (Is6 (PAddr p) = isIPv6 \<and> Bits p \<le> familyBits isIPv6)"

text \<open>Storing a record under a key, replacing the record the key had.\<close>

definition upd ::
  "(nat list \<times> PrefixData) set \<Rightarrow> nat list \<times> PrefixData \<Rightarrow> (nat list \<times> PrefixData) set" where
  "upd S kd = {(k, v) \<in> S. k \<noteq> fst kd} \<union> {kd}"

definition keyed :: "NetPrefix \<times> PrefixData \<Rightarrow> nat list \<times> PrefixData" where
  "keyed pd = (prefixKey (fst pd), snd pd)"

text \<open>The tries that \<^verbatim>\<open>Insert\<close> builds: a root, below it the shape of
  \<^verbatim>\<open>insertRecursive\<close>.\<close>

definition wellFormed :: "Trie \<Rightarrow> bool" where
  "wellFormed t = (case Root t of None \<Rightarrow> False
                   | Some r \<Rightarrow> shaped r 0 (familyBits (IsIPv6 t)))"

definition trieEnts :: "Trie \<Rightarrow> (nat list \<times> PrefixData) set" where
  "trieEnts t = (case Root t of None \<Rightarrow> {} | Some r \<Rightarrow> set (ents r))"

subsection \<open>Example prefixes and addresses\<close>

definition mkPrefix4 :: "byte list \<Rightarrow> nat \<Rightarrow> NetPrefix" where
  "mkPrefix4 bs n = \<lparr>PAddr = \<lparr>Is6 = False, AsBytes = bs\<rparr>, Bits = n\<rparr>"

definition mkAddr4 :: "byte list \<Rightarrow> Addr" where
  "mkAddr4 bs = \<lparr>Is6 = False, AsBytes = bs\<rparr>"

definition mkData :: "string \<Rightarrow> string \<Rightarrow> PrefixData" where
  "mkData cc cidr = \<lparr>CountryCode = cc, PrefixStr = cidr\<rparr>"

text \<open>Scenario 1 of the specification: 8.8.8.0/24, 8.8.0.0/16 and 1.0.0.0/8.\<close>

definition scenario1 :: "(NetPrefix \<times> PrefixData) list" where
  "scenario1 =
     [(mkPrefix4 [8, 8, 8, 0] 24, mkData ''US'' ''8.8.8.0/24''),
      (mkPrefix4 [8, 8, 0, 0] 16, mkData ''US'' ''8.8.0.0/16''),
      (mkPrefix4 [1, 0, 0, 0] 8, mkData ''AU'' ''1.0.0.0/8'')]"

text \<open>Scenario 3 of the specification: 10.0.0.0/8 inserted for ZZ and again for XX.\<close>

definition net10 :: NetPrefix where
  "net10 = mkPrefix4 [10, 0, 0, 0] 8"

definition overwrite10 :: "(NetPrefix \<times> PrefixData) list" where
  "overwrite10 = [(net10, mkData ''ZZ'' ''10.0.0.0/8''), (net10, mkData ''XX'' ''10.0.0.0/8'')]"

subsection \<open>InsertCIDR\<close>

text \<open>
  \<^verbatim>\<open>InsertCIDR\<close> calls three functions of the Go standard library: \<^verbatim>\<open>netip.ParsePrefix\<close>,
  \<^verbatim>\<open>Prefix.Masked\<close> and \<^verbatim>\<open>Prefix.String\<close>. The parser and the printer are parameters
  of the model (\<open>None\<close> is the parser's error). \<^verbatim>\<open>Masked\<close> clears every bit of the
  address after the first \<open>Bits\<close>; \<^verbatim>\<open>strings.ToUpper\<close> is taken on ASCII letters, which
  is all a country code has.
\<close>

definition keepHigh :: "nat \<Rightarrow> byte \<Rightarrow> byte" where
  "keepHigh m b = push_bit (8 - m) (drop_bit (8 - m) b)"

definition maskBytes :: "byte list \<Rightarrow> nat \<Rightarrow> byte list" where
  "maskBytes bs n =
     map (\<lambda>i. if 8 * (i + 1) \<le> n then bs ! i
               else if n \<le> 8 * i then 0
               else keepHigh (n - 8 * i) (bs ! i)) [0..<length bs]"

definition Masked :: "NetPrefix \<Rightarrow> NetPrefix" where
  "Masked p = p\<lparr>PAddr := (PAddr p)\<lparr>AsBytes := maskBytes (AsBytes (PAddr p)) (Bits p)\<rparr>\<rparr>"

definition upperChar :: "char \<Rightarrow> char" where
  "upperChar c =
     (if 97 \<le> (of_char c :: nat) \<and> (of_char c :: nat) \<le> 122
      then char_of ((of_char c :: nat) - 32) else c)"

definition ToUpper :: "string \<Rightarrow> string" where
  "ToUpper s = map upperChar s"

definition InsertCIDR ::
  "(string \<Rightarrow> NetPrefix option) \<Rightarrow> (NetPrefix \<Rightarrow> string) \<Rightarrow>
   Trie \<Rightarrow> string \<Rightarrow> string \<Rightarrow> error + Trie" where
  "InsertCIDR parsePrefix prefixString t cidr countryCode =
     (case parsePrefix cidr of
        None \<Rightarrow> Inl ErrInvalidCIDR
      | Some prefix \<Rightarrow>
          let data = \<lparr>CountryCode = ToUpper countryCode,
                      PrefixStr = prefixString (Masked prefix)\<rparr>
          in Insert t (Masked prefix) data)"

subsection \<open>The standard library's parser and printer on IPv4 text\<close>

text \<open>
  What \<^verbatim>\<open>netip.ParsePrefix\<close> and \<^verbatim>\<open>Prefix.String\<close> do on dotted-quad text, for the
  examples: four decimal fields of one to three digits without a leading zero, each at
  most 255; a slash; the length in decimal without sign or leading zero, at most
  32. Text with a colon (IPv6) is outside this instance.
\<close>

fun splitOn :: "char \<Rightarrow> string \<Rightarrow> string list" where
  "splitOn sep [] = [[]]"
| "splitOn sep (c # cs) =
     (if c = sep then [] # splitOn sep cs
      else (case splitOn sep cs of [] \<Rightarrow> [[c]] | w # ws \<Rightarrow> (c # w) # ws))"

definition isDigit :: "char \<Rightarrow> bool" where
  "isDigit c = (48 \<le> (of_char c :: nat) \<and> (of_char c :: nat) \<le> 57)"

definition digitVal :: "char \<Rightarrow> nat" where
  "digitVal c = (of_char c :: nat) - 48"

definition parseDecimal :: "string \<Rightarrow> nat option" where
  "parseDecimal s =
     (if s = [] \<or> \<not> list_all isDigit s \<or> (1 < length s \<and> hd s = CHR ''0'') then None
      else Some (foldl (\<lambda>acc c. 10 * acc + digitVal c) 0 s))"

definition parseOctet :: "string \<Rightarrow> byte option" where
  "parseOctet s =
     (case parseDecimal s of
        None \<Rightarrow> None
      | Some v \<Rightarrow> if 3 < length s \<or> 255 < v then None else Some (of_nat v))"

definition parseAddr4 :: "string \<Rightarrow> Addr option" where
  "parseAddr4 s =
     (let fields = map parseOctet (splitOn (CHR ''.'') s) in
      if length fields = 4 \<and> list_all (\<lambda>f. f \<noteq> None) fields
      then Some \<lparr>Is6 = False, AsBytes = map the fields\<rparr>
      else None)"

definition parsePrefix4 :: "string \<Rightarrow> NetPrefix option" where
  "parsePrefix4 s =
     (if CHR ''/'' \<notin> set s then None
      else
        let parts = splitOn (CHR ''/'') s;
            addrText = concat (map (\<lambda>w. w @ ''/'') (butlast (butlast parts))) @ last (butlast parts);
            bitsText = last parts
        in case parseAddr4 addrText of
             None \<Rightarrow> None
           | Some ip \<Rightarrow>
               (case parseDecimal bitsText of
                  None \<Rightarrow> None
                | Some bits \<Rightarrow> if 32 < bits then None else Some \<lparr>PAddr = ip, Bits = bits\<rparr>))"

fun decimalDigits :: "nat \<Rightarrow> nat \<Rightarrow> string" where
  "decimalDigits 0 n = []"
| "decimalDigits (Suc fuel) n =
     (if n < 10 then [char_of (48 + n)]
      else decimalDigits fuel (n div 10) @ [char_of (48 + n mod 10)])"

definition decimalString :: "nat \<Rightarrow> string" where
  "decimalString n = decimalDigits (Suc n) n"

definition addrString4 :: "Addr \<Rightarrow> string" where
  "addrString4 a =
     (case map (decimalString \<circ> unat) (AsBytes a) of
        [] \<Rightarrow> []
      | w # ws \<Rightarrow> w @ concat (map (\<lambda>x. ''.'' @ x) ws))"

definition prefixString4 :: "NetPrefix \<Rightarrow> string" where
  "prefixString4 p = addrString4 (PAddr p) @ ''/'' @ decimalString (Bits p)"

section \<open>The snapshot manager of package snapshot\<close>

text \<open>
  The manager reads the file system through four calls: \<^verbatim>\<open>os.MkdirAll\<close>,
  \<^verbatim>\<open>os.ReadDir\<close>, \<^verbatim>\<open>os.Readlink\<close> and \<^verbatim>\<open>LoadMetadata\<close> (read the file, decode the
  JSON). The state of the file system is what these calls return: \<open>None\<close> is the
  call's error. \<^verbatim>\<open>os.ReadDir\<close> gives each entry's name and whether it is a directory.
  Paths are strings; \<^verbatim>\<open>filepath.Join\<close> of clean components puts a separator between
  them.
\<close>

record Metadata =
  Version :: int
  CreatedAt :: nat
  RequestedTime :: string
  ActualQueryTime :: string
  CountriesCount :: int
  Countries :: "string list"
  PrefixesV4 :: int
  PrefixesV6 :: int
  IndexFormatVersion :: int
  Source :: string
  IsLatest :: bool

record SnapFS =
  mkdirAll :: "string \<Rightarrow> bool"
  readDir :: "string \<Rightarrow> (string \<times> bool) list option"
  readlink :: "string \<Rightarrow> string option"
  loadMetadataFile :: "string \<Rightarrow> Metadata option"

datatype snap_error =
    ErrFileSystem
  | ErrNoSnapshots
  | ErrLoadMetadata string

definition SnapshotsDirName :: string where "SnapshotsDirName = ''snapshots''"
definition LatestSymlink :: string where "LatestSymlink = ''latest''"
definition MetadataFileName :: string where "MetadataFileName = ''metadata.json''"

definition pathJoin :: "string \<Rightarrow> string \<Rightarrow> string" where
  "pathJoin a b = a @ ''/'' @ b"

definition IsAbs :: "string \<Rightarrow> bool" where
  "IsAbs p = (case p of [] \<Rightarrow> False | c # _ \<Rightarrow> c = CHR ''/'')"

definition SnapshotsDir :: "string \<Rightarrow> string" where
  "SnapshotsDir cacheDir = pathJoin cacheDir SnapshotsDirName"

definition SnapshotDir :: "string \<Rightarrow> string \<Rightarrow> string" where
  "SnapshotDir cacheDir date = pathJoin (SnapshotsDir cacheDir) date"

definition LatestSnapshotPath :: "string \<Rightarrow> string" where
  "LatestSnapshotPath cacheDir = pathJoin (SnapshotsDir cacheDir) LatestSymlink"

definition MetadataPath :: "string \<Rightarrow> string" where
  "MetadataPath snapshotDir = pathJoin snapshotDir MetadataFileName"

definition GetSnapshotDir :: "string \<Rightarrow> string \<Rightarrow> string" where
  "GetSnapshotDir cacheDir date = SnapshotDir cacheDir date"

definition LoadMetadata :: "SnapFS \<Rightarrow> string \<Rightarrow> Metadata option" where
  "LoadMetadata fs path = loadMetadataFile fs path"

text \<open>The loop of \<^verbatim>\<open>ListSnapshots\<close> over the directory entries, appending to \<open>dates\<close>.
  \<^verbatim>\<open>strings.Count(name, "-")\<close> is the number of hyphens in the name.\<close>

fun listLoop :: "(string \<times> bool) list \<Rightarrow> string list \<Rightarrow> string list" where
  "listLoop [] dates = dates"
| "listLoop ((name, isDir) # entries) dates =
     (if \<not> isDir then listLoop entries dates
      else if name = LatestSymlink then listLoop entries dates
      else if length name = 10 \<and> count_list name (CHR ''-'') = 2
           then listLoop entries (dates @ [name])
      else listLoop entries dates)"

definition ListSnapshots :: "SnapFS \<Rightarrow> string \<Rightarrow> snap_error + string list" where
  "ListSnapshots fs cacheDir =
     (let snapshotsDir = SnapshotsDir cacheDir in
      if \<not> mkdirAll fs snapshotsDir then Inl ErrFileSystem
      else case readDir fs snapshotsDir of
             None \<Rightarrow> Inl ErrFileSystem
           | Some entries \<Rightarrow> Inr (listLoop entries []))"

text \<open>\<^verbatim>\<open>GetLatestSnapshot\<close>: the link first, then the greatest listed date.
  \<^verbatim>\<open>sort.Sort(sort.Reverse(sort.StringSlice(snapshots)))\<close> orders the names descending,
  bytewise.\<close>

definition GetLatestSnapshot :: "SnapFS \<Rightarrow> string \<Rightarrow> snap_error + (string \<times> Metadata)" where
  "GetLatestSnapshot fs cacheDir =
     (let latestPath = LatestSnapshotPath cacheDir;
          viaLink =
            (case readlink fs latestPath of
               None \<Rightarrow> None
             | Some target \<Rightarrow>
                 let target = (if \<not> IsAbs target then pathJoin (SnapshotsDir cacheDir) target
                               else target)
                 in case LoadMetadata fs (MetadataPath target) of
                      None \<Rightarrow> None
                    | Some meta \<Rightarrow> Some (target, meta))
      in case viaLink of
           Some found \<Rightarrow> Inr found
         | None \<Rightarrow>
             (case ListSnapshots fs cacheDir of
                Inl e \<Rightarrow> Inl e
              | Inr snapshots \<Rightarrow>
                  if length snapshots = 0 then Inl ErrNoSnapshots
                  else
                    let latestDate = hd (rev (sort snapshots));
                        dir = GetSnapshotDir cacheDir latestDate
                    in case LoadMetadata fs (MetadataPath dir) of
                         None \<Rightarrow> Inl (ErrLoadMetadata latestDate)
                       | Some meta \<Rightarrow> Inr (dir, meta)))"

subsection \<open>Example snapshot stores\<close>

text \<open>A store whose only entry is a directory with a ten-character name and hyphens at
  positions 5 and 7.\<close>

definition fsOddName :: SnapFS where
  "fsOddName = \<lparr>mkdirAll = (\<lambda>_. True),
     readDir = (\<lambda>p. if p = ''/c/snapshots'' then Some [(''20250-1-15'', True)] else None),
     readlink = (\<lambda>_. None),
     loadMetadataFile = (\<lambda>_. None)\<rparr>"

definition meta0 :: Metadata where
  "meta0 = \<lparr>Version = 1, CreatedAt = 0, RequestedTime = ''2025-01-01'',
     ActualQueryTime = ''2025-01-01'', CountriesCount = 1, Countries = [''us''],
     PrefixesV4 = 1, PrefixesV6 = 0, IndexFormatVersion = 1,
     Source = ''RIPEstat country-resource-list'', IsLatest = True\<rparr>"

text \<open>A store without a latest link, with a finished snapshot for 2025-01-01 and a
  directory for 2025-02-01 that has no metadata yet.\<close>

definition fsGap :: SnapFS where
  "fsGap = \<lparr>mkdirAll = (\<lambda>_. True),
     readDir = (\<lambda>p. if p = ''/c/snapshots''
                     then Some [(''2025-01-01'', True), (''2025-02-01'', True)] else None),
     readlink = (\<lambda>_. None),
     loadMetadataFile = (\<lambda>p. if p = ''/c/snapshots/2025-01-01/metadata.json''
                             then Some meta0 else None)\<rparr>"

text \<open>The same store with a latest link to 2025-01-01, and an empty store.\<close>

definition fsLinked :: SnapFS where
  "fsLinked = fsGap\<lparr>readlink := (\<lambda>p. if p = ''/c/snapshots/latest''
                                       then Some ''2025-01-01'' else None)\<rparr>"

definition fsEmpty :: SnapFS where
  "fsEmpty = \<lparr>mkdirAll = (\<lambda>_. True), readDir = (\<lambda>_. Some []),
     readlink = (\<lambda>_. None), loadMetadataFile = (\<lambda>_. None)\<rparr>"

text \<open>The target of the latest link as \<^verbatim>\<open>GetLatestSnapshot\<close> resolves it.\<close>

definition resolveLink :: "string \<Rightarrow> string \<Rightarrow> string" where
  "resolveLink cacheDir target =
     (if \<not> IsAbs target then pathJoin (SnapshotsDir cacheDir) target else target)"

text \<open>The resolution order as the specification words it: the link if its metadata
  loads, else the greatest listed date whose metadata loads, else no snapshots.\<close>

definition spec_get_latest :: "SnapFS \<Rightarrow> string \<Rightarrow> snap_error + (string \<times> Metadata)" where
  "spec_get_latest fs cacheDir =
     (case (case readlink fs (LatestSnapshotPath cacheDir) of
              None \<Rightarrow> None
            | Some target \<Rightarrow>
                map_option (Pair (resolveLink cacheDir target))
                  (LoadMetadata fs (MetadataPath (resolveLink cacheDir target)))) of
        Some found \<Rightarrow> Inr found
      | None \<Rightarrow>
          (case ListSnapshots fs cacheDir of
             Inl e \<Rightarrow> Inl e
           | Inr snapshots \<Rightarrow>
               (case filter (\<lambda>d. LoadMetadata fs (MetadataPath (GetSnapshotDir cacheDir d)) \<noteq> None)
                       (rev (sort snapshots)) of
                  [] \<Rightarrow> Inl ErrNoSnapshots
                | d # _ \<Rightarrow>
                    Inr (GetSnapshotDir cacheDir d,
                         the (LoadMetadata fs (MetadataPath (GetSnapshotDir cacheDir d)))))))"

section \<open>The index file codec of package index\<close>

text \<open>
  An index file is a list of bytes. \<^verbatim>\<open>binary.Write\<close> with \<^verbatim>\<open>binary.LittleEndian\<close> puts
  the low byte of an integer first and writes a \<^verbatim>\<open>bool\<close> as one byte, 1 or 0;
  \<^verbatim>\<open>binary.Read\<close> takes any non-zero byte for true. The conversions \<^verbatim>\<open>uint8(n)\<close>,
  \<^verbatim>\<open>uint16(n)\<close> and \<^verbatim>\<open>uint32(n)\<close> keep the low bits of \<open>n\<close>. A Go string and its
  bytes are the same sequence.
\<close>

definition bytesOfString :: "string \<Rightarrow> byte list" where
  "bytesOfString s = map (\<lambda>c. of_nat (of_char c)) s"

definition stringOfBytes :: "byte list \<Rightarrow> string" where
  "stringOfBytes bs = map (\<lambda>b. char_of (unat b)) bs"

definition putU8 :: "nat \<Rightarrow> byte list" where
  "putU8 n = [of_nat n]"

definition putU16 :: "nat \<Rightarrow> byte list" where
  "putU16 n = [of_nat n, of_nat (n div 256)]"

definition putU32 :: "nat \<Rightarrow> byte list" where
  "putU32 n = [of_nat n, of_nat (n div 256), of_nat (n div 65536), of_nat (n div 16777216)]"

definition putU64 :: "nat \<Rightarrow> byte list" where
  "putU64 n = putU32 n @ putU32 (n div 4294967296)"

definition putBool :: "bool \<Rightarrow> byte list" where
  "putBool b = [if b then 1 else 0]"

definition getU16 :: "byte list \<Rightarrow> nat" where
  "getU16 bs = unat (bs ! 0) + 256 * unat (bs ! 1)"

definition getU32 :: "byte list \<Rightarrow> nat" where
  "getU32 bs = unat (bs ! 0) + 256 * unat (bs ! 1) + 65536 * unat (bs ! 2)
               + 16777216 * unat (bs ! 3)"

definition Magic :: string where "Magic = ''IP2CCIDX''"
definition HeaderSize :: nat where "HeaderSize = 32"
definition IndexFormatVersion :: nat where "IndexFormatVersion = 1"
definition FlagHasIPv4 :: nat where "FlagHasIPv4 = 1"
definition FlagHasIPv6 :: nat where "FlagHasIPv6 = 2"

datatype codec_error =
    ErrReadFile
  | ErrReadHeader
  | ErrInvalidMagic
  | ErrUnsupportedVersion
  | ErrDeserializeNodes
  | ErrReadCount
  | ErrEOF

subsection \<open>Writing\<close>

text \<open>The prefix bytes of a node as \<^verbatim>\<open>serializeNode\<close> writes them: \<open>(PrefixLen + 7) / 8\<close>
  bytes, the slice padded with zeros or cut to that length.\<close>

definition prefixBytesOf :: "TrieNode \<Rightarrow> byte list" where
  "prefixBytesOf node =
     (let prefixBytes = (PrefixLen node + 7) div 8 in
      if prefixBytes > 0 then
        (if length (Prefix node) < prefixBytes
         then Prefix node @ replicate (prefixBytes - length (Prefix node)) 0
         else take prefixBytes (Prefix node))
      else [])"

definition countryCodeBytes :: "string \<Rightarrow> byte list" where
  "countryCodeBytes cc =
     (if length cc \<ge> 2 then [of_nat (of_char (cc ! 0)), of_nat (of_char (cc ! 1))]
      else [0, 0])"

definition dataBytes :: "PrefixData option \<Rightarrow> byte list" where
  "dataBytes d =
     (case d of
        None \<Rightarrow> putBool False
      | Some v \<Rightarrow>
          putBool True @ countryCodeBytes (CountryCode v)
          @ putU16 (length (bytesOfString (PrefixStr v))) @ bytesOfString (PrefixStr v))"

text \<open>\<^verbatim>\<open>serializeNode\<close> on a writer that accepts every byte: the bytes written.\<close>

fun serializeNode :: "TrieNode option \<Rightarrow> byte list" where
  "serializeNode None = [0xFF]"
| "serializeNode (Some (TrieNode p l d c0 c1)) =
     putU8 l @ prefixBytesOf (TrieNode p l d c0 c1) @ dataBytes d
     @ putBool (c0 \<noteq> None) @ putBool (c1 \<noteq> None)
     @ (if c0 \<noteq> None then serializeNode c0 else [])
     @ (if c1 \<noteq> None then serializeNode c1 else [])"

definition headerBytes :: "bool \<Rightarrow> byte list" where
  "headerBytes isIPv6 =
     bytesOfString Magic @ putU32 IndexFormatVersion
     @ putU32 (if isIPv6 then FlagHasIPv6 else FlagHasIPv4)
     @ putU64 0 @ putU64 0"

text \<open>Everything \<^verbatim>\<open>saveTrie\<close> writes: the header, the nodes, the count.\<close>

definition saveTrieBytes :: "Trie \<Rightarrow> bool \<Rightarrow> byte list" where
  "saveTrieBytes trie isIPv6 =
     headerBytes isIPv6 @ serializeNode (Root trie) @ putU32 (Count trie)"

subsection \<open>Reading\<close>

text \<open>\<^verbatim>\<open>io.ReadFull\<close> of \<open>n\<close> bytes from the rest of the input; a one-byte
  \<^verbatim>\<open>binary.Read\<close> is the case \<open>n = 1\<close>.\<close>

definition readFull :: "nat \<Rightarrow> byte list \<Rightarrow> codec_error + (byte list \<times> byte list)" where
  "readFull n bs = (if length bs < n then Inl ErrEOF else Inr (take n bs, drop n bs))"

text \<open>The part of \<^verbatim>\<open>deserializeNode\<close> before it descends: the nil marker, or the node
  without children and the two child flags.\<close>

datatype node_head = NilMarker | Head TrieNode bool bool

definition readData :: "byte list \<Rightarrow> codec_error + (PrefixData option \<times> byte list)" where
  "readData bs =
     (case readFull 1 bs of
        Inl e \<Rightarrow> Inl e
      | Inr (flag, bs1) \<Rightarrow>
          if flag ! 0 = 0 then Inr (None, bs1)
          else
            (case readFull 2 bs1 of
               Inl e \<Rightarrow> Inl e
             | Inr (cc, bs2) \<Rightarrow>
                 (case readFull 2 bs2 of
                    Inl e \<Rightarrow> Inl e
                  | Inr (lenBytes, bs3) \<Rightarrow>
                      (case readFull (getU16 lenBytes) bs3 of
                         Inl e \<Rightarrow> Inl e
                       | Inr (prefixStr, bs4) \<Rightarrow>
                           Inr (Some \<lparr>CountryCode = stringOfBytes cc,
                                      PrefixStr = stringOfBytes prefixStr\<rparr>, bs4)))))"

definition readHead :: "byte list \<Rightarrow> codec_error + (node_head \<times> byte list)" where
  "readHead bs =
     (case readFull 1 bs of
        Inl e \<Rightarrow> Inl e
      | Inr (lenByte, bs1) \<Rightarrow>
          if lenByte ! 0 = 0xFF then Inr (NilMarker, bs1)
          else
            let prefixLen = unat (lenByte ! 0);
                prefixBytes = (prefixLen + 7) div 8
            in case (if prefixBytes > 0 then readFull prefixBytes bs1 else Inr ([], bs1)) of
                 Inl e \<Rightarrow> Inl e
               | Inr (prefix, bs2) \<Rightarrow>
                   (case readData bs2 of
                      Inl e \<Rightarrow> Inl e
                    | Inr (d, bs3) \<Rightarrow>
                        (case readFull 1 bs3 of
                           Inl e \<Rightarrow> Inl e
                         | Inr (hasLeft, bs4) \<Rightarrow>
                             (case readFull 1 bs4 of
                                Inl e \<Rightarrow> Inl e
                              | Inr (hasRight, bs5) \<Rightarrow>
                                  Inr (Head (TrieNode prefix prefixLen d None None)
                                         (hasLeft ! 0 \<noteq> 0) (hasRight ! 0 \<noteq> 0), bs5)))))"

lemma readFull_length:
  "readFull n bs = Inr (x, rest) \<Longrightarrow> length rest + n = length bs"
  by (auto simp: readFull_def split: if_splits)

lemma readData_length:
  "readData bs = Inr (d, rest) \<Longrightarrow> length rest < length bs"
  by (auto simp: readData_def split: sum.splits if_splits prod.splits dest!: readFull_length)

lemma readHead_length:
  "readHead bs = Inr (h, rest) \<Longrightarrow> length rest < length bs"
  by (auto simp: readHead_def Let_def split: sum.splits if_splits prod.splits
      dest!: readFull_length readData_length)

text \<open>\<^verbatim>\<open>deserializeNode\<close>: the head, then the left and the right subtree when their flags
  are set, each read from what the previous step left. Every step consumes input, which
  is why the recursion ends.\<close>

function deserializeNode :: "byte list \<Rightarrow> codec_error + (TrieNode option \<times> byte list)" where
  "deserializeNode bs =
     (case readHead bs of
        Inl e \<Rightarrow> Inl e
      | Inr (NilMarker, rest) \<Rightarrow> Inr (None, rest)
      | Inr (Head node hasLeft hasRight, rest) \<Rightarrow>
          (case (if hasLeft then deserializeNode rest else Inr (None, rest)) of
             Inl e \<Rightarrow> Inl e
           | Inr (left, rest1) \<Rightarrow>
               (case (if hasRight then deserializeNode rest1 else Inr (None, rest1)) of
                  Inl e \<Rightarrow> Inl e
                | Inr (right, rest2) \<Rightarrow>
                    Inr (Some (TrieNode (Prefix node) (PrefixLen node) (Data node) left right),
                         rest2))))"
  by pat_completeness auto

lemma deserializeNode_shrinks:
  "deserializeNode_dom bs \<Longrightarrow> deserializeNode bs = Inr (n, rest) \<Longrightarrow> length rest < length bs"
proof (induction bs arbitrary: n rest rule: deserializeNode.pinduct)
  case (1 bs)
  note eq = "1.prems" [unfolded deserializeNode.psimps [OF "1.hyps"]]
  show ?case
  proof (cases "readHead bs")
    case (Inl e)
    with eq show ?thesis by simp
  next
    case (Inr hr)
    obtain h r where hr: "hr = (h, r)" by (cases hr)
    have lr: "length r < length bs" using Inr hr by (auto dest: readHead_length)
    show ?thesis
    proof (cases h)
      case NilMarker
      with eq Inr hr lr show ?thesis by simp
    next
      case (Head node hasLeft hasRight)
      note rh = Inr [unfolded hr Head]
      obtain left rest1 where
        l: "(if hasLeft then deserializeNode r else Inr (None, r)) = Inr (left, rest1)"
        using eq rh by (auto split: sum.splits prod.splits)
      have l1: "length rest1 \<le> length r"
      proof (cases hasLeft)
        case True
        with l "1.IH"(1) [OF rh refl refl] show ?thesis by (simp add: less_imp_le)
      next
        case False
        with l show ?thesis by simp
      qed
      obtain right where
        rr: "(if hasRight then deserializeNode rest1 else Inr (None, rest1)) = Inr (right, rest)"
        using eq rh l by (auto split: sum.splits prod.splits)
      have "length rest \<le> length rest1"
      proof (cases hasRight)
        case True
        with rr "1.IH"(2) [OF rh refl refl l refl] show ?thesis
          by (simp add: less_imp_le)
      next
        case False
        with rr show ?thesis by simp
      qed
      with l1 lr show ?thesis by simp
    qed
  qed
qed

termination deserializeNode
  apply (relation "measure length")
    apply simp
   apply (auto dest!: readHead_length deserializeNode_shrinks split: if_splits)
  done

declare deserializeNode.simps [simp del]

text \<open>\<^verbatim>\<open>loadTrie\<close> on the bytes of the file: the header must be complete, the magic
  and the version must match; the flags and the two offsets are read and not looked at.
  The root may come back nil (a file whose node stream starts with the marker).\<close>

definition loadTrieBytes :: "byte list \<Rightarrow> bool \<Rightarrow> codec_error + Trie" where
  "loadTrieBytes data isIPv6 =
     (if length data < HeaderSize then Inl ErrReadHeader
      else if stringOfBytes (take 8 data) \<noteq> Magic then Inl ErrInvalidMagic
      else if getU32 (drop 8 data) \<noteq> IndexFormatVersion then Inl ErrUnsupportedVersion
      else
        case deserializeNode (drop HeaderSize data) of
          Inl e \<Rightarrow> Inl ErrDeserializeNodes
        | Inr (root, rest) \<Rightarrow>
            (case readFull 4 rest of
               Inl e \<Rightarrow> Inl ErrReadCount
             | Inr (count, rest') \<Rightarrow>
                 Inr \<lparr>Root = root, IsIPv6 = isIPv6, Count = getU32 count\<rparr>))"

subsection \<open>Files\<close>

text \<open>
  The file system is a map from paths to contents. \<^verbatim>\<open>saveTrie\<close> opens the destination
  with \<^verbatim>\<open>os.Create\<close>, which truncates an existing file, and writes into it through a
  buffered writer; \<^verbatim>\<open>Metadata.Save\<close> calls \<^verbatim>\<open>os.WriteFile\<close>, which does the same. What
  can go wrong is a parameter: the open fails, or the device takes only the first \<open>k\<close>
  bytes.
\<close>

type_synonym file_system = "string \<rightharpoonup> byte list"

datatype io_fault = NoFault | CreateFails | WriteFailsAfter nat

datatype io_error = ErrCreate | ErrWrite

definition writeInPlace ::
  "file_system \<Rightarrow> io_fault \<Rightarrow> string \<Rightarrow> byte list \<Rightarrow> io_error option \<times> file_system" where
  "writeInPlace fs fault path content =
     (case fault of
        CreateFails \<Rightarrow> (Some ErrCreate, fs)
      | WriteFailsAfter k \<Rightarrow>
          if k < length content then (Some ErrWrite, fs(path \<mapsto> take k content))
          else (None, fs(path \<mapsto> content))
      | NoFault \<Rightarrow> (None, fs(path \<mapsto> content)))"

definition saveTrie ::
  "file_system \<Rightarrow> io_fault \<Rightarrow> string \<Rightarrow> Trie \<Rightarrow> bool \<Rightarrow> io_error option \<times> file_system" where
  "saveTrie fs fault path trie isIPv6 = writeInPlace fs fault path (saveTrieBytes trie isIPv6)"

definition loadTrie :: "file_system \<Rightarrow> string \<Rightarrow> bool \<Rightarrow> codec_error + Trie" where
  "loadTrie fs path isIPv6 =
     (case fs path of None \<Rightarrow> Inl ErrReadFile | Some data \<Rightarrow> loadTrieBytes data isIPv6)"

text \<open>\<^verbatim>\<open>Metadata.Save\<close>; the JSON encoder is the standard library's, a parameter.\<close>

definition Save ::
  "(Metadata \<Rightarrow> byte list) \<Rightarrow> file_system \<Rightarrow> io_fault \<Rightarrow> string \<Rightarrow> Metadata
   \<Rightarrow> io_error option \<times> file_system" where
  "Save marshalIndent fs fault path m = writeInPlace fs fault path (marshalIndent m)"

subsection \<open>What survives a round trip\<close>

text \<open>A node as the reader rebuilds it: the prefix slice has exactly the bytes that were
  written.\<close>

fun canon :: "TrieNode \<Rightarrow> TrieNode" where
  "canon (TrieNode p l d c0 c1) =
     TrieNode (prefixBytesOf (TrieNode p l d c0 c1)) l d
       (case c0 of None \<Rightarrow> None | Some c \<Rightarrow> Some (canon c))
       (case c1 of None \<Rightarrow> None | Some c \<Rightarrow> Some (canon c))"

text \<open>What the format can hold: an edge length that is not the marker 255, a country code
  of two bytes, a CIDR text whose length fits 16 bits.\<close>

definition dataFits :: "PrefixData \<Rightarrow> bool" where
  "dataFits v = (length (CountryCode v) = 2 \<and> length (PrefixStr v) < 65536)"

fun codecOK :: "TrieNode \<Rightarrow> bool" where
  "codecOK (TrieNode p l d c0 c1) =
     (l < 255
      \<and> (case d of None \<Rightarrow> True | Some v \<Rightarrow> dataFits v)
      \<and> (case c0 of None \<Rightarrow> True | Some c \<Rightarrow> codecOK c)
      \<and> (case c1 of None \<Rightarrow> True | Some c \<Rightarrow> codecOK c))"

section \<open>Bits and edges\<close>

lemma getBit_bit:
  "getBit d p = (if p div 8 < length d \<and> bit (d ! (p div 8)) (7 - p mod 8) then 1 else 0)"
  by (simp add: getBit_def Let_def and_one_eq bit_iff_odd_drop_bit mod_2_eq_odd)

lemma sub7_inj: "a < 8 \<Longrightarrow> b < 8 \<Longrightarrow> 7 - a = 7 - b \<Longrightarrow> a = (b::nat)"
  by simp

lemma pos_eq_iff: "(q div 8 = j div 8 \<and> 7 - q mod 8 = 7 - j mod 8) = (q = (j::nat))"
proof
  assume a: "q div 8 = j div 8 \<and> 7 - q mod 8 = 7 - j mod 8"
  have "q mod 8 = j mod 8"
    by (rule sub7_inj) (use a in simp_all)
  with a show "q = j" by (metis div_mult_mod_eq)
next
  assume "q = j" then show "q div 8 = j div 8 \<and> 7 - q mod 8 = 7 - j mod 8" by simp
qed

lemma bit_or_single:
  "k < 8 \<Longrightarrow> bit (w OR push_bit k (1::byte)) m = (bit w m \<or> m = k)"
  by (auto simp add: bit_simps)

lemma bit_or_pow2:
  "k < 8 \<Longrightarrow> bit (w OR (2::byte) ^ k) m = (bit w m \<or> m = k)"
  using bit_or_single [of k w m] by simp

lemma getBit_set:
  assumes "j div 8 < length r"
  shows "getBit (r[j div 8 := (r ! (j div 8)) OR (push_bit (7 - j mod 8) 1)]) q =
     (if q = j then 1 else getBit r q)"
proof (cases "q div 8 = j div 8")
  case True
  have e: "(7 - q mod 8 = 7 - j mod 8) = (q = j)"
    using pos_eq_iff [of q j] True by simp
  have k: "7 - j mod 8 < 8" by simp
  show ?thesis
    using assms True e
    by (simp add: getBit_bit bit_or_pow2 [OF k])
next
  case False
  then have "q \<noteq> j" by auto
  with False assms show ?thesis
    by (simp add: getBit_bit)
qed


lemma getBit_set_pow2:
  assumes "j div 8 < length r"
  shows "getBit (r[j div 8 := (r ! (j div 8)) OR 2 ^ (7 - j mod 8)]) q =
     (if q = j then 1 else getBit r q)"
  using getBit_set [OF assms, of q] by simp

lemma getBit_Nil [simp]: "getBit [] p = 0"
  by (simp add: getBit_def)

lemma getBit_cases: "getBit d p = 0 \<or> getBit d p = 1"
  by (simp add: getBit_bit)

lemma length_extractStep [simp]: "length (extractStep data start i r) = length r"
  by (simp add: extractStep_def Let_def)

lemma length_fold_extractStep [simp]:
  "length (fold (extractStep data start) is r) = length r"
  by (induction "is" arbitrary: r) simp_all

lemma getBit_extractStep:
  assumes "j div 8 < length r" and "getBit r j = 0"
  shows "getBit (extractStep data start j r) q =
           (if q = j then getBit data (start + j) else getBit r q)"
proof (cases "getBit data (start + j) = 1")
  case True
  then show ?thesis using assms by (simp add: extractStep_def Let_def getBit_set_pow2)
next
  case False
  then have "getBit data (start + j) = 0" using getBit_cases [of data "start + j"] by simp
  then show ?thesis using assms by (simp add: extractStep_def)
qed

lemma getBit_fold_extractStep:
  assumes "len \<le> 8 * length r0" and "\<And>q. getBit r0 q = 0"
  shows "j \<le> len \<Longrightarrow>
         getBit (fold (extractStep data start) [0..<j] r0) q =
           (if q < j then getBit data (start + q) else 0)"
proof (induction j arbitrary: q)
  case 0
  then show ?case using assms by simp
next
  case (Suc j)
  let ?r = "fold (extractStep data start) [0..<j] r0"
  have IH: "\<And>q. getBit ?r q = (if q < j then getBit data (start + q) else 0)"
    using Suc by simp
  have "j < 8 * length r0" using Suc.prems assms(1) by simp
  then have a: "j div 8 < length ?r" by simp
  have b: "getBit ?r j = 0" using IH by simp
  have "getBit (extractStep data start j ?r) q =
          (if q = j then getBit data (start + j) else getBit ?r q)"
    by (rule getBit_extractStep [OF a b])
  then show ?case using IH by (auto simp add: less_Suc_eq)
qed

lemma getBit_replicate_zero [simp]: "getBit (replicate n 0) q = 0"
  by (simp add: getBit_bit)

lemma getBit_extractBits:
  "getBit (extractBits data start len) i = (if i < len then getBit data (start + i) else 0)"
proof (cases "len = 0")
  case True
  then show ?thesis by (simp add: extractBits_def)
next
  case False
  have "len \<le> 8 * length (replicate ((len + 7) div 8) (0::byte))" by simp
  then show ?thesis
    using False getBit_fold_extractStep [of len "replicate ((len + 7) div 8) 0" len data start i]
    by (simp add: extractBits_def)
qed

lemma bitsOf_extractBits: "bitsOf (extractBits data start len) 0 len = bitsOf data start len"
  by (simp add: bitsOf_def getBit_extractBits)

subsection \<open>The two comparison loops\<close>

lemma from_Suc_all:
  "P i \<Longrightarrow> (\<forall>k. i + 1 \<le> k \<and> Q k \<longrightarrow> P k) = (\<forall>k::nat. i \<le> k \<and> Q k \<longrightarrow> P k)"
proof (intro iffI allI impI)
  fix k
  assume Pi: "P i" and h: "\<forall>k. i + 1 \<le> k \<and> Q k \<longrightarrow> P k" and k: "i \<le> k \<and> Q k"
  show "P k"
  proof (cases "k = i")
    case True
    with Pi show ?thesis by simp
  next
    case False
    with k have "i + 1 \<le> k \<and> Q k" by simp
    with h show ?thesis by blast
  qed
next
  fix k
  assume h: "\<forall>k. i \<le> k \<and> Q k \<longrightarrow> P k" and k: "i + 1 \<le> k \<and> Q k"
  then have "i \<le> k \<and> Q k" by simp
  with h show "P k" by blast
qed

lemma matchLoop_iff:
  "matchLoop bits pos c n i =
     (\<forall>k. i \<le> k \<and> (k < n \<and> k < PrefixLen c) \<longrightarrow> getBit bits (pos + k) = getBit (Prefix c) k)"
proof (induction bits pos c n i rule: matchLoop.induct)
  case (1 bits pos c n i)
  show ?case
  proof (cases "i < n \<and> i < PrefixLen c")
    case False
    then have "matchLoop bits pos c n i" by (subst matchLoop.simps) auto
    moreover have "\<And>k. i \<le> k \<Longrightarrow> \<not> (k < n \<and> k < PrefixLen c)" using False by auto
    ultimately show ?thesis by blast
  next
    case True
    show ?thesis
    proof (cases "getBit bits (pos + i) = getBit (Prefix c) i")
      case False
      with True have "\<not> matchLoop bits pos c n i"
        by (subst matchLoop.simps) (simp add: getBitFromSlice_def)
      moreover have "i \<le> i \<and> (i < n \<and> i < PrefixLen c)" using True by simp
      ultimately show ?thesis using False by blast
    next
      case eq: True
      have "matchLoop bits pos c n i = matchLoop bits pos c n (i + 1)"
        using True eq by (subst matchLoop.simps) (simp add: getBitFromSlice_def)
      also have "\<dots> = (\<forall>k. i + 1 \<le> k \<and> (k < n \<and> k < PrefixLen c) \<longrightarrow>
                         getBit bits (pos + k) = getBit (Prefix c) k)"
        using "1.IH" True eq by (simp add: getBitFromSlice_def)
      also have "\<dots> = (\<forall>k. i \<le> k \<and> (k < n \<and> k < PrefixLen c) \<longrightarrow>
                         getBit bits (pos + k) = getBit (Prefix c) k)"
        using eq by (rule from_Suc_all)
      finally show ?thesis .
    qed
  qed
qed


lemma commonLoop_spec:
  "i \<le> m \<Longrightarrow>
   i \<le> commonLoop bits pos cb m i \<and> commonLoop bits pos cb m i \<le> m
   \<and> (\<forall>k. i \<le> k \<and> k < commonLoop bits pos cb m i \<longrightarrow>
          getBit bits (pos + k) = getBit cb k)
   \<and> (commonLoop bits pos cb m i < m \<longrightarrow>
        getBit bits (pos + commonLoop bits pos cb m i) \<noteq> getBit cb (commonLoop bits pos cb m i))"
proof (induction bits pos cb m i rule: commonLoop.induct)
  case (1 bits pos cb m i)
  show ?case
  proof (cases "i < m")
    case False
    then have "commonLoop bits pos cb m i = i" by (subst commonLoop.simps) simp
    with "1.prems" False show ?thesis by simp
  next
    case True
    show ?thesis
    proof (cases "getBit bits (pos + i) = getBit cb i")
      case False
      with True have "commonLoop bits pos cb m i = i"
        by (subst commonLoop.simps) (simp add: getBitFromSlice_def)
      with True False show ?thesis by simp
    next
      case eq: True
      have st: "commonLoop bits pos cb m i = commonLoop bits pos cb m (i + 1)"
        using True eq by (subst commonLoop.simps) (simp add: getBitFromSlice_def)
      let ?L = "commonLoop bits pos cb m (i + 1)"
      have IH: "i + 1 \<le> ?L \<and> ?L \<le> m
              \<and> (\<forall>k. i + 1 \<le> k \<and> k < ?L \<longrightarrow> getBit bits (pos + k) = getBit cb k)
              \<and> (?L < m \<longrightarrow> getBit bits (pos + ?L) \<noteq> getBit cb ?L)"
        using "1.IH" True eq by (simp add: getBitFromSlice_def)
      have "(\<forall>k. i \<le> k \<and> k < ?L \<longrightarrow> getBit bits (pos + k) = getBit cb k)"
        using IH from_Suc_all [of "\<lambda>k. getBit bits (pos + k) = getBit cb k" i "\<lambda>k. k < ?L"] eq
        by simp
      with IH show ?thesis unfolding st by simp
    qed
  qed
qed

subsection \<open>Entries and shape of nodes\<close>

lemma length_bitsOf [simp]: "length (bitsOf d s n) = n"
  by (simp add: bitsOf_def)

lemma nth_bitsOf [simp]: "k < n \<Longrightarrow> bitsOf d s n ! k = getBit d (s + k)"
  by (simp add: bitsOf_def)

lemma bitsOf_0 [simp]: "bitsOf d s 0 = []"
  by (simp add: bitsOf_def)

lemma bitsOf_eq_iff:
  "(bitsOf d s n = bitsOf d' s' n) = (\<forall>k<n. getBit d (s + k) = getBit d' (s' + k))"
  by (simp add: list_eq_iff_nth_eq)

lemma bitsOf_add: "bitsOf d s (a + b) = bitsOf d s a @ bitsOf d (s + a) b"
  by (simp add: list_eq_iff_nth_eq nth_append add.assoc)

lemma take_bitsOf: "take a (bitsOf d s n) = bitsOf d s (min a n)"
  by (simp add: list_eq_iff_nth_eq)

lemma drop_bitsOf: "drop a (bitsOf d s n) = bitsOf d (s + a) (n - a)"
  by (simp add: list_eq_iff_nth_eq add.assoc)

lemma hd_bitsOf: "0 < n \<Longrightarrow> hd (bitsOf d s n) = getBit d s"
  by (cases n) (simp_all add: bitsOf_def upt_rec del: upt_Suc)

lemma edge_TrieNode [simp]: "edge (TrieNode p l d c0 c1) = bitsOf p 0 l"
  by (simp add: edge_def)

lemma edge_extract [simp]: "bitsOf (extractBits bits pos n) 0 n = bitsOf bits pos n"
  by (rule bitsOf_extractBits)

lemma ents_decomp: "set (ents n) = dataS (Data n) \<union> slotS (Child0 n) \<union> slotS (Child1 n)"
  by (cases n) (auto simp: dataS_def slotS_def pre_def split: option.splits)

lemma shaped_decomp: "shaped n pos M = (slotOK 0 (Child0 n) pos M \<and> slotOK 1 (Child1 n) pos M)"
  by (cases n) (simp add: slotOK_def split: option.splits)

lemma pre_Un: "pre e (A \<union> B) = pre e A \<union> pre e B"
  by (auto simp: pre_def)

lemma pre_single [simp]: "pre e {(k, v)} = {(e @ k, v)}"
  by (simp add: pre_def)

lemma pre_empty [simp]: "pre e {} = {}"
  by (simp add: pre_def)

lemma pre_pre: "pre e1 (pre e2 S) = pre (e1 @ e2) S"
  by (auto simp: pre_def image_iff)

lemma pre_remove: "pre e {(k, v) \<in> S. k \<noteq> k0} = {(k, v) \<in> pre e S. k \<noteq> e @ k0}"
  by (auto simp: pre_def)

lemma in_pre_iff: "((k, v) \<in> pre e S) = (\<exists>k'. k = e @ k' \<and> (k', v) \<in> S)"
  by (auto simp: pre_def)

lemma slot_keys:
  assumes "slotOK b s pos M" and "(k, v) \<in> slotS s"
  shows "k \<noteq> [] \<and> hd k = b"
proof (cases s)
  case None
  with assms show ?thesis by (simp add: slotS_def)
next
  case (Some c)
  with assms obtain k' where k: "k = edge c @ k'" by (auto simp: slotS_def in_pre_iff)
  from Some assms have l: "0 < PrefixLen c" and f: "getBit (Prefix c) 0 = b"
    by (simp_all add: slotOK_def)
  from l have "edge c \<noteq> []" by (auto simp: edge_def dest: arg_cong [where f = length])
  moreover have "hd (edge c) = b" using l f by (simp add: edge_def hd_bitsOf)
  ultimately show ?thesis using k by simp
qed

lemma Data_setChild [simp]: "Data (setChild n b c) = Data n"
  by (simp add: setChild_def)

lemma Prefix_setChild [simp]: "Prefix (setChild n b c) = Prefix n"
  by (simp add: setChild_def)

lemma PrefixLen_setChild [simp]: "PrefixLen (setChild n b c) = PrefixLen n"
  by (simp add: setChild_def)

lemma Child0_setChild [simp]: "Child0 (setChild n b c) = (if b = 0 then Some c else Child0 n)"
  by (simp add: setChild_def)

lemma Child1_setChild [simp]: "Child1 (setChild n b c) = (if b = 0 then Child1 n else Some c)"
  by (simp add: setChild_def)

lemma sel_setData [simp]:
  "Data (setData n d) = d" "Prefix (setData n d) = Prefix n"
  "PrefixLen (setData n d) = PrefixLen n"
  "Child0 (setData n d) = Child0 n" "Child1 (setData n d) = Child1 n"
  by (simp_all add: setData_def)

lemma edge_setChild [simp]: "edge (setChild n b c) = edge n"
  by (simp add: edge_def)

lemma edge_setData [simp]: "edge (setData n d) = edge n"
  by (simp add: edge_def)

lemma replace_slot:
  assumes sh: "shaped n pos M" and K: "K \<noteq> []" "hd K = b" and b: "b = 0 \<or> b = 1"
    and S: "slotS (Some c') = {(k, v) \<in> slotS (children n b). k \<noteq> K} \<union> {(K, d)}"
  shows "set (ents (setChild n b c')) = {(k, v) \<in> set (ents n). k \<noteq> K} \<union> {(K, d)}"
proof -
  from sh have ok0: "slotOK 0 (Child0 n) pos M" and ok1: "slotOK 1 (Child1 n) pos M"
    by (simp_all add: shaped_decomp)
  have d: "\<And>k v. (k, v) \<in> dataS (Data n) \<Longrightarrow> k \<noteq> K"
    using K by (auto simp: dataS_def split: option.splits)
  show ?thesis
  proof (cases "b = 0")
    case True
    have o: "\<And>k v. (k, v) \<in> slotS (Child1 n) \<Longrightarrow> k \<noteq> K"
      using slot_keys [OF ok1] K True by fastforce
    have "set (ents (setChild n b c')) =
            dataS (Data n) \<union> slotS (Some c') \<union> slotS (Child1 n)"
      using True by (simp add: ents_decomp)
    also have "\<dots> = {(k, v) \<in> set (ents n). k \<noteq> K} \<union> {(K, d)}"
      unfolding S ents_decomp [of n] using True d o by (auto simp: children_def)
    finally show ?thesis .
  next
    case False
    with b have b1: "b = 1" by simp
    have o: "\<And>k v. (k, v) \<in> slotS (Child0 n) \<Longrightarrow> k \<noteq> K"
      using slot_keys [OF ok0] K b1 by fastforce
    have "set (ents (setChild n b c')) =
            dataS (Data n) \<union> slotS (Child0 n) \<union> slotS (Some c')"
      using b1 by (simp add: ents_decomp)
    also have "\<dots> = {(k, v) \<in> set (ents n). k \<noteq> K} \<union> {(K, d)}"
      unfolding S ents_decomp [of n] using b1 d o by (auto simp: children_def)
    finally show ?thesis .
  qed
qed

lemma shaped_setChild:
  assumes "shaped n pos M" and "b = 0 \<or> b = 1" and "slotOK b (Some c') pos M"
  shows "shaped (setChild n b c') pos M"
  using assms by (auto simp: shaped_decomp)

lemma shaped_setData [simp]: "shaped (setData n d) pos M = shaped n pos M"
  by (simp add: shaped_decomp)

lemma ents_setData:
  assumes "shaped n pos M"
  shows "set (ents (setData n (Some d))) = {(k, v) \<in> set (ents n). k \<noteq> []} \<union> {([], d)}"
proof -
  from assms have ok0: "slotOK 0 (Child0 n) pos M" and ok1: "slotOK 1 (Child1 n) pos M"
    by (simp_all add: shaped_decomp)
  have "\<And>k v. (k, v) \<in> slotS (Child0 n) \<Longrightarrow> k \<noteq> []"
       "\<And>k v. (k, v) \<in> slotS (Child1 n) \<Longrightarrow> k \<noteq> []"
    using slot_keys [OF ok0] slot_keys [OF ok1] by blast+
  then show ?thesis
    by (auto simp: ents_decomp dataS_def split: option.splits)
qed

lemma getBit_01: "getBit d p = 0 \<or> getBit d p = 1"
  by (rule getBit_cases)

lemma slotS_leaf:
  "slotS (Some (TrieNode (extractBits bits pos m) m (Some d) None None)) = {(bitsOf bits pos m, d)}"
  by (simp add: slotS_def)

lemma slotOK_leaf:
  assumes "0 < m" and "getBit bits pos = b" and "q + m \<le> M"
  shows "slotOK b (Some (TrieNode (extractBits bits pos m) m v None None)) q M"
  using assms by (simp add: slotOK_def getBit_extractBits)

lemma ents_same_children:
  "set (ents (TrieNode p l (Data c) (Child0 c) (Child1 c))) = set (ents c)"
  by (simp only: ents_decomp TrieNode.sel)

lemma shaped_same_children:
  "shaped (TrieNode p l v (Child0 c) (Child1 c)) q M = shaped c q M"
  by (simp only: shaped_decomp TrieNode.sel)

text \<open>The split of a child \<open>c\<close> at \<open>L\<close> bits: the new parent as the code builds it.\<close>

lemma split_slotS:
  assumes L: "0 < L" "L < PrefixLen c"
    and agree: "bitsOf bits pos L = bitsOf (Prefix c) 0 L"
  shows "slotS (Some (setChild (TrieNode (extractBits bits pos L) L None None None)
            (getBitFromSlice (Prefix c) L)
            (TrieNode (extractBitsFromSlice (Prefix c) L (PrefixLen c - L)) (PrefixLen c - L)
               (Data c) (Child0 c) (Child1 c)))) = slotS (Some c)"
proof -
  let ?child' = "TrieNode (extractBitsFromSlice (Prefix c) L (PrefixLen c - L)) (PrefixLen c - L)
               (Data c) (Child0 c) (Child1 c)"
  have e: "edge c = bitsOf bits pos L @ edge ?child'"
    using L bitsOf_add [of "Prefix c" 0 L "PrefixLen c - L"] agree
    by (simp add: edge_def extractBitsFromSlice_def)
  have "slotS (Some ?child') = pre (edge ?child') (set (ents c))"
    by (simp only: slotS_def option.case ents_same_children)
  then show ?thesis
    using e by (simp add: slotS_def ents_decomp dataS_def pre_pre)
qed


lemma slotS_decomp:
  "slotS (Some m) = pre (edge m) (dataS (Data m) \<union> slotS (Child0 m) \<union> slotS (Child1 m))"
  by (simp add: slotS_def ents_decomp)

lemma slotS_update:
  assumes "set (ents c') = {(k, v) \<in> set (ents c). k \<noteq> k0} \<union> {(k0, d)}"
    and "edge c' = edge c"
  shows "slotS (Some c') =
           {(k, v) \<in> slotS (Some c). k \<noteq> edge c @ k0} \<union> {(edge c @ k0, d)}"
  using assms by (auto simp: slotS_def pre_def)

lemma slotS_setData_None:
  assumes "Data m = None"
  shows "slotS (Some (setData m (Some d))) = {(edge m, d)} \<union> slotS (Some m)"
  using assms by (auto simp: slotS_def ents_decomp dataS_def pre_def)

lemma split_shaped:
  assumes L: "0 < L" "L < PrefixLen c"
    and fit: "pos + PrefixLen c \<le> M" and shc: "shaped c (pos + PrefixLen c) M"
  shows "shaped (setChild (TrieNode (extractBits bits pos L) L None None None)
            (getBitFromSlice (Prefix c) L)
            (TrieNode (extractBitsFromSlice (Prefix c) L (PrefixLen c - L)) (PrefixLen c - L)
               (Data c) (Child0 c) (Child1 c))) (pos + L) M"
proof -
  let ?child' = "TrieNode (extractBitsFromSlice (Prefix c) L (PrefixLen c - L)) (PrefixLen c - L)
               (Data c) (Child0 c) (Child1 c)"
  have ob: "getBitFromSlice (Prefix c) L = 0 \<or> getBitFromSlice (Prefix c) L = 1"
    unfolding getBitFromSlice_def by (rule getBit_01)
  have sc: "shaped ?child' (pos + PrefixLen c) M"
    using shc by (simp only: shaped_same_children)
  have "slotOK (getBitFromSlice (Prefix c) L) (Some ?child') (pos + L) M"
    using L fit sc
    by (simp add: slotOK_def extractBitsFromSlice_def getBit_extractBits getBitFromSlice_def)
  moreover have "shaped (TrieNode (extractBits bits pos L) L None None None) (pos + L) M"
    by simp
  ultimately show ?thesis using ob by (intro shaped_setChild)
qed

lemma slotOK_children:
  assumes "shaped n pos M" and "b = 0 \<or> b = 1"
  shows "slotOK b (children n b) pos M"
  using assms by (auto simp: shaped_decomp children_def)

lemma insertRecursive_correct:
  "shaped n pos M \<Longrightarrow> pos \<le> len \<Longrightarrow> len \<le> M \<Longrightarrow>
   Prefix (insertRecursive n bits pos len d) = Prefix n
   \<and> PrefixLen (insertRecursive n bits pos len d) = PrefixLen n
   \<and> shaped (insertRecursive n bits pos len d) pos M
   \<and> set (ents (insertRecursive n bits pos len d)) =
       {(k, v) \<in> set (ents n). k \<noteq> bitsOf bits pos (len - pos)}
       \<union> {(bitsOf bits pos (len - pos), d)}"
proof (induction n bits pos len d rule: insertRecursive.induct)
  case (1 node bits pos prefixLen data)
  note sh = \<open>shaped node pos M\<close>
  let ?K = "bitsOf bits pos (prefixLen - pos)"
  let ?res = "insertRecursive node bits pos prefixLen data"
  show ?case
  proof (cases "pos = prefixLen")
    case True
    then have r: "?res = setData node (Some data)"
      by (subst insertRecursive.simps) simp
    show ?thesis unfolding r using True ents_setData [OF sh] sh by simp
  next
    case False
    with "1.prems" have lt: "pos < prefixLen" by simp
    define b where "b = getBit bits pos"
    have b01: "b = 0 \<or> b = 1" unfolding b_def by (rule getBit_01)
    have Kne: "?K \<noteq> []" using lt by (auto dest: arg_cong [where f = length])
    have hdK: "hd ?K = b" using lt by (simp add: hd_bitsOf b_def)
    show ?thesis
    proof (cases "children node b")
      case None
      let ?leaf = "TrieNode (extractBits bits pos (prefixLen - pos)) (prefixLen - pos)
                     (Some data) None None"
      have r: "?res = setChild node b ?leaf"
        using False None by (subst insertRecursive.simps) (simp add: b_def Let_def)
      have S: "slotS (Some ?leaf) = {(k, v) \<in> slotS (children node b). k \<noteq> ?K} \<union> {(?K, data)}"
        using None by (simp add: slotS_leaf) (simp add: slotS_def)
      have ok: "slotOK b (Some ?leaf) pos M"
        using lt "1.prems" by (intro slotOK_leaf) (simp_all add: b_def)
      show ?thesis
        unfolding r using replace_slot [OF sh Kne hdK b01 S] shaped_setChild [OF sh b01 ok]
        by simp
    next
      case (Some c)
      define L where "L = commonLoop bits pos (Prefix c) (min (prefixLen - pos) (PrefixLen c)) 0"
      have cok: "slotOK b (Some c) pos M"
        using slotOK_children [OF sh b01] Some by simp
      then have cl: "0 < PrefixLen c" and first: "getBit (Prefix c) 0 = b"
        and fit: "pos + PrefixLen c \<le> M" and shc: "shaped c (pos + PrefixLen c) M"
        by (simp_all add: slotOK_def)
      have spec: "L \<le> min (prefixLen - pos) (PrefixLen c)
          \<and> (\<forall>k. 0 \<le> k \<and> k < L \<longrightarrow> getBit bits (pos + k) = getBit (Prefix c) k)
          \<and> (L < min (prefixLen - pos) (PrefixLen c) \<longrightarrow>
                getBit bits (pos + L) \<noteq> getBit (Prefix c) L)"
        using commonLoop_spec [of 0 "min (prefixLen - pos) (PrefixLen c)" bits pos "Prefix c"]
        unfolding L_def by simp
      have Lle: "L \<le> prefixLen - pos" "L \<le> PrefixLen c" using spec by simp_all
      have Lpos: "0 < L"
      proof (rule ccontr)
        assume "\<not> 0 < L"
        then have "L = 0" by simp
        with spec lt cl have "getBit bits pos \<noteq> getBit (Prefix c) 0" by simp
        with first show False by (simp add: b_def)
      qed
      have agreeL: "bitsOf bits pos L = bitsOf (Prefix c) 0 L"
        using spec by (simp add: bitsOf_eq_iff)
      have Ladd: "L + (prefixLen - (pos + L)) = prefixLen - pos" using Lle by simp
      have Ksplit: "?K = bitsOf bits pos L @ bitsOf bits (pos + L) (prefixLen - (pos + L))"
        using bitsOf_add [of bits pos L "prefixLen - (pos + L)"] by (simp only: Ladd)
      consider (exact) "L = PrefixLen c" "L = prefixLen - pos"
        | (descend) "L = PrefixLen c" "L \<noteq> prefixLen - pos"
        | (splitEnd) "L \<noteq> PrefixLen c" "L = prefixLen - pos"
        | (splitLeaf) "L \<noteq> PrefixLen c" "L \<noteq> prefixLen - pos"
        by blast
      then show ?thesis
      proof cases
        case exact
        have r: "?res = setChild node b (setData c (Some data))"
          using False Some exact
          by (subst insertRecursive.simps) (simp add: b_def Let_def L_def)
        have Ke: "?K = edge c" using exact agreeL by (simp add: edge_def)
        have S: "slotS (Some (setData c (Some data))) =
                   {(k, v) \<in> slotS (children node b). k \<noteq> ?K} \<union> {(?K, data)}"
          using slotS_update [OF ents_setData [OF shc, of data] edge_setData] Some
          by (simp add: Ke)
        have ok: "slotOK b (Some (setData c (Some data))) pos M"
          using cok by (simp add: slotOK_def)
        show ?thesis
          unfolding r using replace_slot [OF sh Kne hdK b01 S] shaped_setChild [OF sh b01 ok]
          by simp
      next
        case descend
        let ?c' = "insertRecursive c bits (pos + PrefixLen c) prefixLen data"
        have r: "?res = setChild node b ?c'"
          using False Some descend
          by (subst insertRecursive.simps) (simp add: b_def Let_def L_def)
        have le: "pos + PrefixLen c \<le> prefixLen" using Lle descend by simp
        have IH: "Prefix ?c' = Prefix c \<and> PrefixLen ?c' = PrefixLen c
                  \<and> shaped ?c' (pos + PrefixLen c) M
                  \<and> set (ents ?c') =
                      {(k, v) \<in> set (ents c). k \<noteq> bitsOf bits (pos + PrefixLen c) (prefixLen - (pos + PrefixLen c))}
                      \<union> {(bitsOf bits (pos + PrefixLen c) (prefixLen - (pos + PrefixLen c)), data)}"
          using "1.IH" [OF False b_def Some refl refl refl L_def] descend shc le "1.prems"
          by simp
        have Ke: "?K = edge c @ bitsOf bits (pos + PrefixLen c) (prefixLen - (pos + PrefixLen c))"
          using Ksplit descend agreeL by (simp add: edge_def)
        have ec: "edge ?c' = edge c" using IH by (simp add: edge_def)
        have S: "slotS (Some ?c') = {(k, v) \<in> slotS (children node b). k \<noteq> ?K} \<union> {(?K, data)}"
          using slotS_update [OF conjunct2 [OF conjunct2 [OF conjunct2 [OF IH]]] ec] Some
          by (simp add: Ke)
        have ok: "slotOK b (Some ?c') pos M"
          using cok IH by (simp add: slotOK_def)
        show ?thesis
          unfolding r using replace_slot [OF sh Kne hdK b01 S] shaped_setChild [OF sh b01 ok]
          by simp
      next
        case splitEnd
        let ?child' = "TrieNode (extractBitsFromSlice (Prefix c) L (PrefixLen c - L))
                         (PrefixLen c - L) (Data c) (Child0 c) (Child1 c)"
        let ?np = "setChild (TrieNode (extractBits bits pos L) L None None None)
                     (getBitFromSlice (Prefix c) L) ?child'"
        have Llt: "L < PrefixLen c" using Lle splitEnd by simp
        have r: "?res = setChild node b (setData ?np (Some data))"
          using False Some splitEnd
          by (subst insertRecursive.simps) (simp add: b_def Let_def L_def)
        have sp: "slotS (Some ?np) = slotS (Some c)"
          by (rule split_slotS [OF Lpos Llt agreeL])
        have KL: "?K = bitsOf bits pos L" using splitEnd by simp
        have enp: "edge ?np = ?K" using KL by simp
        have long: "\<And>k v. (k, v) \<in> slotS (Some c) \<Longrightarrow> k \<noteq> ?K"
        proof
          fix k v assume "(k, v) \<in> slotS (Some c)" and "k = ?K"
          then obtain k' where "?K = edge c @ k'" by (auto simp: slotS_def in_pre_iff)
          then have "length ?K \<ge> PrefixLen c" by (simp add: edge_def)
          with KL Llt show False by simp
        qed
        have "Data ?np = None" by simp
        then have "slotS (Some (setData ?np (Some data))) = {(edge ?np, data)} \<union> slotS (Some ?np)"
          by (rule slotS_setData_None)
        then have "slotS (Some (setData ?np (Some data))) = {(?K, data)} \<union> slotS (Some ?np)"
          by (simp only: enp)
        then have S: "slotS (Some (setData ?np (Some data))) =
                   {(k, v) \<in> slotS (children node b). k \<noteq> ?K} \<union> {(?K, data)}"
          using Some sp long by auto
        have ok: "slotOK b (Some (setData ?np (Some data))) pos M"
          using split_shaped [OF Lpos Llt fit shc, of bits] Lpos Llt fit
          by (simp add: slotOK_def getBit_extractBits b_def)
        show ?thesis
          unfolding r using replace_slot [OF sh Kne hdK b01 S] shaped_setChild [OF sh b01 ok]
          by simp
      next
        case splitLeaf
        let ?child' = "TrieNode (extractBitsFromSlice (Prefix c) L (PrefixLen c - L))
                         (PrefixLen c - L) (Data c) (Child0 c) (Child1 c)"
        let ?np = "setChild (TrieNode (extractBits bits pos L) L None None None)
                     (getBitFromSlice (Prefix c) L) ?child'"
        let ?K2 = "bitsOf bits (pos + L) (prefixLen - (pos + L))"
        let ?leaf = "TrieNode (extractBits bits (pos + L) (prefixLen - pos - L))
                       (prefixLen - pos - L) (Some data) None None"
        define nb where "nb = getBit bits (pos + L)"
        have Llt: "L < PrefixLen c" and Lrem: "L < prefixLen - pos"
          using Lle splitLeaf by simp_all
        have r: "?res = setChild node b (setChild ?np nb ?leaf)"
          using False Some splitLeaf
          by (subst insertRecursive.simps) (simp add: b_def Let_def L_def nb_def)
        have nb01: "nb = 0 \<or> nb = 1" unfolding nb_def by (rule getBit_01)
        have ob01: "getBitFromSlice (Prefix c) L = 0 \<or> getBitFromSlice (Prefix c) L = 1"
          unfolding getBitFromSlice_def by (rule getBit_01)
        have diff: "nb \<noteq> getBitFromSlice (Prefix c) L"
          using spec Llt Lrem by (simp add: nb_def getBitFromSlice_def)
        have shnp: "shaped ?np (pos + L) M"
          by (rule split_shaped [OF Lpos Llt fit shc])
        have sp: "slotS (Some ?np) = slotS (Some c)"
          by (rule split_slotS [OF Lpos Llt agreeL])
        have K2ne: "?K2 \<noteq> []" using Lrem by (auto dest: arg_cong [where f = length])
        have hdK2: "hd ?K2 = nb" using Lrem by (simp add: hd_bitsOf nb_def)
        have leafeq: "?leaf = TrieNode (extractBits bits (pos + L) (prefixLen - (pos + L)))
                       (prefixLen - (pos + L)) (Some data) None None"
          by simp
        have empty: "children ?np nb = None"
          using diff nb01 ob01 by (auto simp: children_def)
        have S2: "slotS (Some ?leaf) = {(k, v) \<in> slotS (children ?np nb). k \<noteq> ?K2} \<union> {(?K2, data)}"
          unfolding empty leafeq slotS_leaf by (simp add: slotS_def)
        have e2: "set (ents (setChild ?np nb ?leaf)) =
                    {(k, v) \<in> set (ents ?np). k \<noteq> ?K2} \<union> {(?K2, data)}"
          by (rule replace_slot [OF shnp K2ne hdK2 nb01 S2])
        have enp: "edge ?np = bitsOf bits pos L" by simp
        have "slotS (Some (setChild ?np nb ?leaf)) =
                {(k, v) \<in> slotS (Some ?np). k \<noteq> edge ?np @ ?K2} \<union> {(edge ?np @ ?K2, data)}"
          by (rule slotS_update [OF e2 edge_setChild])
        then have S: "slotS (Some (setChild ?np nb ?leaf)) =
                   {(k, v) \<in> slotS (children node b). k \<noteq> ?K} \<union> {(?K, data)}"
          unfolding enp sp Some Ksplit [symmetric] .
        have okleaf: "slotOK nb (Some ?leaf) (pos + L) M"
          unfolding leafeq using Lrem "1.prems"
          by (intro slotOK_leaf) (simp_all add: nb_def)
        have shnp2: "shaped (setChild ?np nb ?leaf) (pos + L) M"
          by (rule shaped_setChild [OF shnp nb01 okleaf])
        have ok: "slotOK b (Some (setChild ?np nb ?leaf)) pos M"
          using shnp2 Lpos Llt fit
          by (simp add: slotOK_def getBit_extractBits b_def)
        show ?thesis
          unfolding r using replace_slot [OF sh Kne hdK b01 S] shaped_setChild [OF sh b01 ok]
          by simp
      qed
    qed
  qed
qed

subsection \<open>The lookup loop finds the longest stored prefix\<close>

lemma bitPrefix_Nil [simp]: "bitPrefix [] A"
  by (simp add: bitPrefix_def)

lemma bitPrefix_Nil2 [simp]: "bitPrefix k [] = (k = [])"
  by (auto simp: bitPrefix_def)

lemma bitPrefix_append:
  "bitPrefix (e @ k) A = (bitPrefix e A \<and> bitPrefix k (drop (length e) A))"
proof
  assume a: "bitPrefix (e @ k) A"
  then have t: "take (length e + length k) A = e @ k" by (simp add: bitPrefix_def)
  have "take (length e) A = take (length e) (take (length e + length k) A)" by simp
  also have "\<dots> = e" unfolding t by simp
  finally have 1: "take (length e) A = e" .
  have "take (length k) (drop (length e) A) = drop (length e) (take (length e + length k) A)"
    by (simp add: drop_take)
  also have "\<dots> = k" unfolding t by simp
  finally have 2: "take (length k) (drop (length e) A) = k" .
  from 1 2 show "bitPrefix e A \<and> bitPrefix k (drop (length e) A)" by (simp add: bitPrefix_def)
next
  assume a: "bitPrefix e A \<and> bitPrefix k (drop (length e) A)"
  then have 1: "take (length e) A = e" and 2: "take (length k) (drop (length e) A) = k"
    by (simp_all add: bitPrefix_def)
  have "take (length e + length k) A = take (length e) A @ take (length k) (drop (length e) A)"
    by (simp add: take_add)
  with 1 2 show "bitPrefix (e @ k) A" by (simp add: bitPrefix_def)
qed

lemma bitPrefix_hd:
  assumes "bitPrefix k A" and "k \<noteq> []"
  shows "A \<noteq> [] \<and> hd k = hd A"
proof -
  from assms have t: "take (length k) A = k" by (simp add: bitPrefix_def)
  with assms(2) have "A \<noteq> []" by auto
  moreover have "hd (take (length k) A) = hd A" using assms(2) by (cases A; cases k) simp_all
  ultimately show ?thesis using t by simp
qed

lemma bitPrefix_bitsOf_iff:
  "n \<le> m \<Longrightarrow> bitPrefix (bitsOf d 0 n) (bitsOf bits pos m) =
     (\<forall>k<n. getBit bits (pos + k) = getBit d k)"
  by (simp add: bitPrefix_def take_bitsOf min_def bitsOf_eq_iff)

lemma lookup_stop:
  assumes nochild: "\<And>k v. (k, v) \<in> slotS (Child0 n) \<union> slotS (Child1 n) \<Longrightarrow> \<not> bitPrefix k A"
    and res: "r = (case Data n of None \<Rightarrow> lm | Some x \<Rightarrow> Some x)"
  shows "((\<forall>(k, v) \<in> set (ents n). \<not> bitPrefix k A) \<longrightarrow> r = lm)
       \<and> (\<forall>(k, v) \<in> set (ents n).
            bitPrefix k A \<and> (\<forall>(k', v') \<in> set (ents n). bitPrefix k' A \<longrightarrow> length k' \<le> length k)
            \<longrightarrow> r = Some v)"
proof (intro conjI impI ballI)
  assume "\<forall>(k, v) \<in> set (ents n). \<not> bitPrefix k A"
  then have "Data n = None"
    by (cases "Data n") (auto simp: ents_decomp dataS_def)
  with res show "r = lm" by simp
next
  fix x assume x: "x \<in> set (ents n)"
  show "case x of (k, v) \<Rightarrow>
          bitPrefix k A \<and> (\<forall>(k', v') \<in> set (ents n). bitPrefix k' A \<longrightarrow> length k' \<le> length k)
          \<longrightarrow> r = Some v"
  proof (cases x)
    case (Pair k v)
    show ?thesis unfolding Pair prod.case
    proof
      assume m: "bitPrefix k A \<and> (\<forall>(k', v') \<in> set (ents n). bitPrefix k' A \<longrightarrow> length k' \<le> length k)"
      with nochild x Pair have "(k, v) \<in> dataS (Data n)"
        by (auto simp: ents_decomp)
      then have "Data n = Some v" by (auto simp: dataS_def split: option.splits)
      with res show "r = Some v" by simp
    qed
  qed
qed


lemma ents_by_slot:
  assumes "b = 0 \<or> b = 1"
  shows "set (ents n) = dataS (Data n) \<union> slotS (children n b) \<union> slotS (children n (1 - b))"
  using assms by (auto simp: ents_decomp children_def)

lemma other_slot_no_match:
  assumes sh: "shaped n pos M" and b: "b = 0 \<or> b = 1" and A: "A \<noteq> []" "hd A = b"
    and kv: "(k, v) \<in> slotS (children n (1 - b))"
  shows "\<not> bitPrefix k A"
proof
  assume m: "bitPrefix k A"
  have b': "1 - b = 0 \<or> 1 - b = 1" using b by auto
  from slot_keys [OF slotOK_children [OF sh b'] kv] have "k \<noteq> []" and "hd k = 1 - b" by simp_all
  moreover from bitPrefix_hd [OF m \<open>k \<noteq> []\<close>] have "hd k = hd A" by simp
  ultimately show False using A b by auto
qed

lemma lookupLoop_correct:
  "shaped n pos M \<Longrightarrow>
   ((\<forall>(k, v) \<in> set (ents n). \<not> bitPrefix k (bitsOf bits pos (M - pos)))
      \<longrightarrow> lookupLoop n bits pos M lm = lm)
   \<and> (\<forall>(k, v) \<in> set (ents n).
        bitPrefix k (bitsOf bits pos (M - pos))
        \<and> (\<forall>(k', v') \<in> set (ents n).
              bitPrefix k' (bitsOf bits pos (M - pos)) \<longrightarrow> length k' \<le> length k)
        \<longrightarrow> lookupLoop n bits pos M lm = Some v)"
proof (induction n bits pos M lm rule: lookupLoop.induct)
  case (1 node bits pos maxBits lastMatch)
  note sh = \<open>shaped node pos maxBits\<close>
  let ?A = "bitsOf bits pos (maxBits - pos)"
  let ?lm = "case Data node of None \<Rightarrow> lastMatch | Some x \<Rightarrow> Some x"
  let ?res = "lookupLoop node bits pos maxBits lastMatch"
  have ok0: "slotOK 0 (Child0 node) pos maxBits" and ok1: "slotOK 1 (Child1 node) pos maxBits"
    using sh by (simp_all add: shaped_decomp)
  show ?case
  proof (cases "maxBits \<le> pos")
    case True
    then have r: "?res = ?lm"
      by (subst lookupLoop.simps) (simp add: Let_def)
    have A: "?A = []" using True by simp
    have "\<And>k v. (k, v) \<in> slotS (Child0 node) \<union> slotS (Child1 node) \<Longrightarrow> \<not> bitPrefix k ?A"
      unfolding A using slot_keys [OF ok0] slot_keys [OF ok1] by auto
    then show ?thesis by (rule lookup_stop [OF _ r])
  next
    case False
    define b where "b = getBit bits pos"
    have b01: "b = 0 \<or> b = 1" unfolding b_def by (rule getBit_01)
    have Ane: "?A \<noteq> []" using False by (auto dest: arg_cong [where f = length])
    have hdA: "hd ?A = b" using False by (simp add: hd_bitsOf b_def)
    note oth = other_slot_no_match [OF sh b01 Ane hdA]
    have both: "slotS (Child0 node) \<union> slotS (Child1 node) =
                  slotS (children node b) \<union> slotS (children node (1 - b))"
      using b01 by (auto simp: children_def)
    show ?thesis
    proof (cases "children node b")
      case None
      then have r: "?res = ?lm"
        using False by (subst lookupLoop.simps) (simp add: Let_def b_def)
      have "\<And>k v. (k, v) \<in> slotS (Child0 node) \<union> slotS (Child1 node) \<Longrightarrow> \<not> bitPrefix k ?A"
        unfolding both using oth None by (auto simp: slotS_def)
      then show ?thesis by (rule lookup_stop [OF _ r])
    next
      case (Some c)
      have cok: "slotOK b (Some c) pos maxBits"
        using slotOK_children [OF sh b01] Some by simp
      then have cl: "0 < PrefixLen c" and fit: "pos + PrefixLen c \<le> maxBits"
        and shc: "shaped c (pos + PrefixLen c) maxBits"
        by (simp_all add: slotOK_def)
      have cle: "PrefixLen c \<le> maxBits - pos" using fit by simp
      have mt: "matchLoop bits pos c (PrefixLen c) 0 = bitPrefix (edge c) ?A"
        unfolding edge_def bitPrefix_bitsOf_iff [OF cle] matchLoop_iff by simp
      show ?thesis
      proof (cases "matchLoop bits pos c (PrefixLen c) 0")
        case nomatch: False
        have r: "?res = ?lm"
          using False Some nomatch fit
          by (subst lookupLoop.simps) (simp add: Let_def b_def)
        have "\<And>k v. (k, v) \<in> slotS (children node b) \<Longrightarrow> \<not> bitPrefix k ?A"
          using nomatch mt Some by (auto simp: slotS_def in_pre_iff bitPrefix_append)
        then have "\<And>k v. (k, v) \<in> slotS (Child0 node) \<union> slotS (Child1 node)
                     \<Longrightarrow> \<not> bitPrefix k ?A"
          unfolding both using oth by auto
        then show ?thesis by (rule lookup_stop [OF _ r])
      next
        case match: True
        let ?A' = "bitsOf bits (pos + PrefixLen c) (maxBits - (pos + PrefixLen c))"
        have r: "?res = lookupLoop c bits (pos + PrefixLen c) maxBits ?lm"
          using False Some match fit
          by (subst lookupLoop.simps) (simp add: Let_def b_def)
        have dr: "drop (length (edge c)) ?A = ?A'"
          by (simp add: edge_def drop_bitsOf)
        have pm: "\<And>k. bitPrefix (edge c @ k) ?A = bitPrefix k ?A'"
          using match mt by (simp add: bitPrefix_append dr)
        have ene: "0 < length (edge c)" using cl by (simp add: edge_def)
        have IH: "((\<forall>(k, v) \<in> set (ents c). \<not> bitPrefix k ?A') \<longrightarrow> ?res = ?lm)
          \<and> (\<forall>(k, v) \<in> set (ents c).
                bitPrefix k ?A'
                \<and> (\<forall>(k', v') \<in> set (ents c). bitPrefix k' ?A' \<longrightarrow> length k' \<le> length k)
                \<longrightarrow> ?res = Some v)"
          unfolding r
          using "1.IH" [OF refl False, of c "PrefixLen c"] Some match fit shc
          by (simp add: b_def)
        have ent: "set (ents node) =
                     dataS (Data node) \<union> pre (edge c) (set (ents c)) \<union> slotS (children node (1 - b))"
          using ents_by_slot [OF b01, of node] Some by (simp add: slotS_def)
        have sub: "\<And>k v. (k, v) \<in> set (ents c) \<Longrightarrow> (edge c @ k, v) \<in> set (ents node)"
          unfolding ent by (auto simp: in_pre_iff)
        show ?thesis
        proof (intro conjI impI ballI)
          assume no: "\<forall>(k, v) \<in> set (ents node). \<not> bitPrefix k ?A"
          have "Data node = None"
          proof (cases "Data node")
            case (Some v)
            then have "([], v) \<in> set (ents node)" unfolding ent by (simp add: dataS_def)
            with no show ?thesis by fastforce
          qed simp
          moreover have "\<forall>(k, v) \<in> set (ents c). \<not> bitPrefix k ?A'"
            using no sub pm by fastforce
          ultimately show "?res = lastMatch" using IH by simp
        next
          fix x assume x: "x \<in> set (ents node)"
          show "case x of (k, v) \<Rightarrow>
                  bitPrefix k ?A
                  \<and> (\<forall>(k', v') \<in> set (ents node). bitPrefix k' ?A \<longrightarrow> length k' \<le> length k)
                  \<longrightarrow> ?res = Some v"
          proof (cases x)
            case (Pair k v)
            show ?thesis unfolding Pair prod.case
            proof
              assume best: "bitPrefix k ?A
                  \<and> (\<forall>(k', v') \<in> set (ents node). bitPrefix k' ?A \<longrightarrow> length k' \<le> length k)"
              then have mk: "bitPrefix k ?A"
                and mx: "\<And>k' v'. (k', v') \<in> set (ents node) \<Longrightarrow> bitPrefix k' ?A
                           \<Longrightarrow> length k' \<le> length k"
                by auto
              from x Pair have "(k, v) \<in> dataS (Data node) \<or> (k, v) \<in> pre (edge c) (set (ents c))
                                \<or> (k, v) \<in> slotS (children node (1 - b))"
                unfolding ent by auto
              then consider (own) "(k, v) \<in> dataS (Data node)"
                | (below) "(k, v) \<in> pre (edge c) (set (ents c))"
                using oth mk by blast
              then show "?res = Some v"
              proof cases
                case own
                then have k: "k = []" and d: "Data node = Some v"
                  by (auto simp: dataS_def split: option.splits)
                have "\<forall>(k', v') \<in> set (ents c). \<not> bitPrefix k' ?A'"
                proof (intro ballI, clarify)
                  fix k' v' assume in': "(k', v') \<in> set (ents c)" and m': "bitPrefix k' ?A'"
                  from mx [OF sub [OF in']] m' pm have "length (edge c @ k') \<le> length k" by simp
                  with k ene show False by simp
                qed
                with IH d show ?thesis by simp
              next
                case below
                then obtain k2 where k2: "k = edge c @ k2" and in2: "(k2, v) \<in> set (ents c)"
                  by (auto simp: in_pre_iff)
                have m2: "bitPrefix k2 ?A'" using mk k2 pm by simp
                have "\<forall>(k', v') \<in> set (ents c). bitPrefix k' ?A' \<longrightarrow> length k' \<le> length k2"
                proof (intro ballI, clarify)
                  fix k' v' assume in': "(k', v') \<in> set (ents c)" and m': "bitPrefix k' ?A'"
                  from mx [OF sub [OF in']] m' pm have "length (edge c @ k') \<le> length k" by simp
                  with k2 show "length k' \<le> length k2" by simp
                qed
                with IH in2 m2 show ?thesis by fastforce
              qed
            qed
          qed
        qed
      qed
    qed
  qed
qed

subsection \<open>Tries built by inserts\<close>

lemma Insert_step:
  assumes wf: "wellFormed t" and v: "validPrefix (IsIPv6 t) p"
  shows "\<exists>t'. Insert t p d = Inr t' \<and> wellFormed t' \<and> IsIPv6 t' = IsIPv6 t
            \<and> Count t' = Count t + 1 \<and> trieEnts t' = upd (trieEnts t) (prefixKey p, d)"
proof -
  from wf obtain r where r: "Root t = Some r" and sh: "shaped r 0 (familyBits (IsIPv6 t))"
    by (auto simp: wellFormed_def split: option.splits)
  from v have f: "Is6 (PAddr p) = IsIPv6 t" and le: "Bits p \<le> familyBits (IsIPv6 t)"
    by (simp_all add: validPrefix_def)
  let ?r' = "insertRecursive r (prefixToBits p) 0 (Bits p) d"
  have c: "shaped ?r' 0 (familyBits (IsIPv6 t)) \<and>
           set (ents ?r') = {(k, v) \<in> set (ents r). k \<noteq> bitsOf (prefixToBits p) 0 (Bits p - 0)}
                            \<union> {(bitsOf (prefixToBits p) 0 (Bits p - 0), d)}"
    using insertRecursive_correct [OF sh _ le, where bits = "prefixToBits p" and d = d] by simp
  have "Insert t p d = Inr (t\<lparr>Root := Some ?r', Count := Count t + 1\<rparr>)"
    using f r by (simp add: Insert_def)
  moreover have "wellFormed (t\<lparr>Root := Some ?r', Count := Count t + 1\<rparr>)"
    using c by (simp add: wellFormed_def)
  moreover have "trieEnts (t\<lparr>Root := Some ?r', Count := Count t + 1\<rparr>) = upd (trieEnts t) (prefixKey p, d)"
    using c r by (simp add: trieEnts_def upd_def prefixKey_def)
  ultimately show ?thesis by simp
qed

lemma insertAll_steps:
  "wellFormed t \<Longrightarrow> \<forall>pd \<in> set ps. validPrefix (IsIPv6 t) (fst pd) \<Longrightarrow>
   \<exists>t'. insertAll t ps = Inr t' \<and> wellFormed t' \<and> IsIPv6 t' = IsIPv6 t
        \<and> Count t' = Count t + length ps
        \<and> trieEnts t' = foldl upd (trieEnts t) (map keyed ps)"
proof (induction ps arbitrary: t)
  case Nil
  then show ?case by simp
next
  case (Cons pd ps)
  obtain p d where pd: "pd = (p, d)" by (cases pd)
  from Cons.prems pd have v: "validPrefix (IsIPv6 t) p" by simp
  from Insert_step [OF Cons.prems(1) v, of d] obtain t1 where
    t1: "Insert t p d = Inr t1" "wellFormed t1" "IsIPv6 t1 = IsIPv6 t"
        "Count t1 = Count t + 1" "trieEnts t1 = upd (trieEnts t) (prefixKey p, d)"
    by blast
  have "\<forall>pd \<in> set ps. validPrefix (IsIPv6 t1) (fst pd)" using Cons.prems t1 by simp
  from Cons.IH [OF t1(2) this] obtain t' where
    t': "insertAll t1 ps = Inr t'" "wellFormed t'" "IsIPv6 t' = IsIPv6 t1"
        "Count t' = Count t1 + length ps"
        "trieEnts t' = foldl upd (trieEnts t1) (map keyed ps)"
    by blast
  have "keyed (p, d) = (prefixKey p, d)" by (simp add: keyed_def)
  then show ?case using t1 t' pd by simp
qed

lemma wellFormed_NewTrie [simp]: "wellFormed (NewTrie v6)"
  by (simp add: wellFormed_def NewTrie_def)

lemma trieEnts_NewTrie [simp]: "trieEnts (NewTrie v6) = {}"
  by (simp add: trieEnts_def NewTrie_def)

lemma IsIPv6_NewTrie [simp]: "IsIPv6 (NewTrie v6) = v6"
  by (simp add: NewTrie_def)

lemma Count_NewTrie [simp]: "Count (NewTrie v6) = 0"
  by (simp add: NewTrie_def)

lemma foldl_upd_keys:
  "(k, v) \<in> foldl upd S kvs \<Longrightarrow> (k, v) \<in> S \<or> (k, v) \<in> set kvs"
  by (induction kvs arbitrary: S) (auto simp: upd_def split: if_splits)

lemma foldl_upd_distinct:
  "distinct (map fst kvs) \<Longrightarrow> \<forall>kd \<in> set kvs. \<forall>kd' \<in> S. fst kd \<noteq> fst kd' \<Longrightarrow>
   foldl upd S kvs = S \<union> set kvs"
proof (induction kvs arbitrary: S)
  case Nil
  then show ?case by simp
next
  case (Cons kd kvs)
  have u: "upd S kd = S \<union> {kd}" using Cons.prems(2) by (fastforce simp: upd_def)
  have "foldl upd (upd S kd) kvs = upd S kd \<union> set kvs"
  proof (rule Cons.IH)
    show "distinct (map fst kvs)" using Cons.prems(1) by simp
    show "\<forall>kd' \<in> set kvs. \<forall>kd'' \<in> upd S kd. fst kd' \<noteq> fst kd''"
      unfolding u using Cons.prems by (auto simp: rev_image_eqI)
  qed
  then show ?case using u by auto
qed

lemma Lookup_wellFormed:
  assumes wf: "wellFormed t" and fam: "Is6 a = IsIPv6 t"
  shows "((\<forall>(k, v) \<in> trieEnts t. \<not> bitPrefix k (addrKey a)) \<longrightarrow> Lookup t a = None)
       \<and> (\<forall>(k, v) \<in> trieEnts t.
            bitPrefix k (addrKey a)
            \<and> (\<forall>(k', v') \<in> trieEnts t. bitPrefix k' (addrKey a) \<longrightarrow> length k' \<le> length k)
            \<longrightarrow> Lookup t a = Some v)"
proof -
  from wf obtain r where r: "Root t = Some r" and sh: "shaped r 0 (familyBits (IsIPv6 t))"
    by (auto simp: wellFormed_def split: option.splits)
  have L: "Lookup t a = lookupLoop r (addrToBits a) 0 (familyBits (IsIPv6 t)) None"
    using r fam by (simp add: Lookup_def lookupRecursive_def familyBits_def Let_def)
  have A: "addrKey a = bitsOf (addrToBits a) 0 (familyBits (IsIPv6 t) - 0)"
    using fam by (simp add: addrKey_def)
  show ?thesis
    unfolding L A using lookupLoop_correct [OF sh, of "addrToBits a" None] r
    by (simp add: trieEnts_def)
qed

lemma length_prefixKey [simp]: "length (prefixKey p) = Bits p"
  by (simp add: prefixKey_def)

lemma Insert_after_insertAll:
  assumes built: "insertAll (NewTrie isIPv6) ps = Inr t"
    and valid: "\<forall>pd \<in> set ps. validPrefix isIPv6 (fst pd)"
    and vp: "validPrefix isIPv6 p"
  shows "\<exists>t'. Insert t p d = Inr t'
     \<and> Count t = length ps \<and> Count t' = length ps + 1
     \<and> (\<forall>a. Is6 a = isIPv6 \<and> contains p a
              \<and> (\<forall>pd' \<in> set ps. contains (fst pd') a \<longrightarrow> Bits (fst pd') \<le> Bits p)
           \<longrightarrow> Lookup t' a = Some d)"
proof -
  from insertAll_steps [of "NewTrie isIPv6" ps] valid built have
    t: "wellFormed t" "IsIPv6 t = isIPv6" "Count t = length ps"
       "trieEnts t = foldl upd {} (map keyed ps)"
    by auto
  from Insert_step [OF t(1), of p d] vp t(2) obtain t' where
    t': "Insert t p d = Inr t'" "wellFormed t'" "IsIPv6 t' = IsIPv6 t"
        "Count t' = Count t + 1" "trieEnts t' = upd (trieEnts t) (prefixKey p, d)"
    by auto
  have keys: "\<And>k v. (k, v) \<in> trieEnts t' \<Longrightarrow>
                k = prefixKey p \<or> (\<exists>pd \<in> set ps. k = prefixKey (fst pd))"
  proof -
    fix k v assume "(k, v) \<in> trieEnts t'"
    then have "k = prefixKey p \<or> (k, v) \<in> trieEnts t"
      unfolding t'(5) by (auto simp: upd_def)
    moreover have "(k, v) \<in> trieEnts t \<Longrightarrow> \<exists>pd \<in> set ps. k = prefixKey (fst pd)"
      unfolding t(4) using foldl_upd_keys [of k v "{}" "map keyed ps"]
      by (auto simp: keyed_def)
    ultimately show "k = prefixKey p \<or> (\<exists>pd \<in> set ps. k = prefixKey (fst pd))" by blast
  qed
  have look: "\<forall>a. Is6 a = isIPv6 \<and> contains p a
              \<and> (\<forall>pd' \<in> set ps. contains (fst pd') a \<longrightarrow> Bits (fst pd') \<le> Bits p)
           \<longrightarrow> Lookup t' a = Some d"
  proof (intro allI impI)
    fix a
    assume h: "Is6 a = isIPv6 \<and> contains p a
              \<and> (\<forall>pd' \<in> set ps. contains (fst pd') a \<longrightarrow> Bits (fst pd') \<le> Bits p)"
    have fam: "Is6 a = IsIPv6 t'" using h t'(3) t(2) by simp
    have in1: "(prefixKey p, d) \<in> trieEnts t'" unfolding t'(5) by (simp add: upd_def)
    have m: "bitPrefix (prefixKey p) (addrKey a)" using h by (simp add: contains_def)
    have mx: "\<forall>(k', v') \<in> trieEnts t'. bitPrefix k' (addrKey a)
                \<longrightarrow> length k' \<le> length (prefixKey p)"
    proof (intro ballI, clarify)
      fix k' v' assume in': "(k', v') \<in> trieEnts t'" and m': "bitPrefix k' (addrKey a)"
      from keys [OF in'] show "length k' \<le> length (prefixKey p)"
      proof
        assume "k' = prefixKey p" then show ?thesis by simp
      next
        assume "\<exists>pd \<in> set ps. k' = prefixKey (fst pd)"
        then obtain pd where pd: "pd \<in> set ps" "k' = prefixKey (fst pd)" by blast
        with m' have "contains (fst pd) a" by (simp add: contains_def)
        with h pd show ?thesis by auto
      qed
    qed
    from Lookup_wellFormed [OF t'(2) fam] in1 m mx show "Lookup t' a = Some d" by blast
  qed
  from t' t(3) look show ?thesis by simp
qed

section \<open>Properties of the trie\<close>


text \<open>
  Claim C1 (longest match). For a list of valid prefixes of one family with distinct
  keys (leading bits and length), inserted into an empty trie, no insert fails, and for
  every address of the family: if no inserted prefix contains the address, \<^verbatim>\<open>Lookup\<close>
  returns nil; and \<^verbatim>\<open>Lookup\<close> returns the record of every inserted prefix that
  contains the address and is at least as long as every other inserted prefix
  containing it. With the empty list this is: \<^verbatim>\<open>Lookup\<close> on an empty trie returns nil.
\<close>

theorem Lookup_longest_match:
  assumes valid: "\<forall>pd \<in> set ps. validPrefix isIPv6 (fst pd)"
    and dist: "distinct (map (prefixKey \<circ> fst) ps)"
    and fam: "Is6 a = isIPv6"
  shows "\<exists>t. insertAll (NewTrie isIPv6) ps = Inr t
     \<and> ((\<forall>pd \<in> set ps. \<not> contains (fst pd) a) \<longrightarrow> Lookup t a = None)
     \<and> (\<forall>pd \<in> set ps.
           contains (fst pd) a
           \<and> (\<forall>pd' \<in> set ps. contains (fst pd') a \<longrightarrow> Bits (fst pd') \<le> Bits (fst pd))
           \<longrightarrow> Lookup t a = Some (snd pd))"
proof -
  from insertAll_steps [of "NewTrie isIPv6" ps] valid obtain t where
    t: "insertAll (NewTrie isIPv6) ps = Inr t" "wellFormed t" "IsIPv6 t = isIPv6"
       "trieEnts t = foldl upd {} (map keyed ps)"
    by auto
  have "fst \<circ> keyed = prefixKey \<circ> fst" by (rule ext) (simp add: keyed_def)
  then have "map fst (map keyed ps) = map (prefixKey \<circ> fst) ps" by simp
  with dist have "distinct (map fst (map keyed ps))" by (simp only:)
  from foldl_upd_distinct [OF this, of "{}"] t(4)
  have E: "trieEnts t = keyed ` set ps" by simp
  from Lookup_wellFormed [OF t(2), of a] fam t(3)
  have L: "((\<forall>(k, v) \<in> trieEnts t. \<not> bitPrefix k (addrKey a)) \<longrightarrow> Lookup t a = None)
       \<and> (\<forall>(k, v) \<in> trieEnts t.
            bitPrefix k (addrKey a)
            \<and> (\<forall>(k', v') \<in> trieEnts t. bitPrefix k' (addrKey a) \<longrightarrow> length k' \<le> length k)
            \<longrightarrow> Lookup t a = Some v)"
    by simp
  have none: "(\<forall>pd \<in> set ps. \<not> contains (fst pd) a) \<longrightarrow> Lookup t a = None"
    using L unfolding E by (auto simp: keyed_def contains_def)
  have some: "\<forall>pd \<in> set ps.
           contains (fst pd) a
           \<and> (\<forall>pd' \<in> set ps. contains (fst pd') a \<longrightarrow> Bits (fst pd') \<le> Bits (fst pd))
           \<longrightarrow> Lookup t a = Some (snd pd)"
  proof (intro ballI impI)
    fix pd assume pd: "pd \<in> set ps"
      and best: "contains (fst pd) a
           \<and> (\<forall>pd' \<in> set ps. contains (fst pd') a \<longrightarrow> Bits (fst pd') \<le> Bits (fst pd))"
    have in1: "(prefixKey (fst pd), snd pd) \<in> trieEnts t"
      unfolding E using pd by (force simp: keyed_def)
    have m: "bitPrefix (prefixKey (fst pd)) (addrKey a)" using best by (simp add: contains_def)
    have mx: "\<forall>(k', v') \<in> trieEnts t. bitPrefix k' (addrKey a)
                \<longrightarrow> length k' \<le> length (prefixKey (fst pd))"
      unfolding E using best by (auto simp: keyed_def contains_def)
    from L in1 m mx show "Lookup t a = Some (snd pd)" by blast
  qed
  from t(1) none some show ?thesis by blast
qed

lemma scenario1_valid: "\<forall>pd \<in> set scenario1. validPrefix False (fst pd)"
  by code_simp

lemma scenario1_distinct: "distinct (map (prefixKey \<circ> fst) scenario1)"
  by code_simp

theorem Lookup_longest_match_witness:
  "map_sum id (\<lambda>t. (Lookup t (mkAddr4 [8, 8, 8, 8]), Lookup t (mkAddr4 [9, 9, 9, 9])))
     (insertAll (NewTrie False) scenario1)
   = Inr (Some (mkData ''US'' ''8.8.8.0/24''), None)
   \<and> map_sum id (\<lambda>t. Lookup t (mkAddr4 [8, 8, 8, 8])) (insertAll (NewTrie False) [])
     = Inr None"
proof -
  have f8: "Is6 (mkAddr4 [8, 8, 8, 8]) = False" and f9: "Is6 (mkAddr4 [9, 9, 9, 9]) = False"
    by (simp_all add: mkAddr4_def)
  from Lookup_longest_match [OF scenario1_valid scenario1_distinct f8] obtain t where
    t: "insertAll (NewTrie False) scenario1 = Inr t"
    and some: "\<forall>pd \<in> set scenario1.
           contains (fst pd) (mkAddr4 [8, 8, 8, 8])
           \<and> (\<forall>pd' \<in> set scenario1. contains (fst pd') (mkAddr4 [8, 8, 8, 8])
                  \<longrightarrow> Bits (fst pd') \<le> Bits (fst pd))
           \<longrightarrow> Lookup t (mkAddr4 [8, 8, 8, 8]) = Some (snd pd)"
    by blast
  let ?pd = "(mkPrefix4 [8, 8, 8, 0] 24, mkData ''US'' ''8.8.8.0/24'')"
  have "?pd \<in> set scenario1" by (simp add: scenario1_def)
  moreover have "contains (fst ?pd) (mkAddr4 [8, 8, 8, 8])" by code_simp
  moreover have "\<forall>pd' \<in> set scenario1. contains (fst pd') (mkAddr4 [8, 8, 8, 8])
                  \<longrightarrow> Bits (fst pd') \<le> Bits (fst ?pd)"
    by code_simp
  ultimately have L8: "Lookup t (mkAddr4 [8, 8, 8, 8]) = Some (mkData ''US'' ''8.8.8.0/24'')"
    using some by fastforce
  from Lookup_longest_match [OF scenario1_valid scenario1_distinct f9] t
  have "(\<forall>pd \<in> set scenario1. \<not> contains (fst pd) (mkAddr4 [9, 9, 9, 9]))
          \<longrightarrow> Lookup t (mkAddr4 [9, 9, 9, 9]) = None"
    by auto
  moreover have "\<forall>pd \<in> set scenario1. \<not> contains (fst pd) (mkAddr4 [9, 9, 9, 9])"
    by code_simp
  ultimately have L9: "Lookup t (mkAddr4 [9, 9, 9, 9]) = None" by blast
  from Lookup_longest_match [of "[]" False "mkAddr4 [8, 8, 8, 8]"] f8
  have "map_sum id (\<lambda>t. Lookup t (mkAddr4 [8, 8, 8, 8])) (insertAll (NewTrie False) []) = Inr None"
    by simp
  with t L8 L9 show ?thesis by simp
qed

text \<open>
  Claim C2 (overwrite), as stated, fails on the count: \<^verbatim>\<open>Insert\<close> runs \<^verbatim>\<open>t.Count++\<close>
  on every successful call. After 10.0.0.0/8 for ZZ and again for XX the count is 2,
  and the lookup of 10.5.5.5 returns the record of XX.
\<close>

theorem Insert_overwrite_count_counterexample:
  "map_sum id (\<lambda>t. (Count t, Lookup t (mkAddr4 [10, 5, 5, 5])))
     (insertAll (NewTrie False) overwrite10)
   = Inr (2, Some (mkData ''XX'' ''10.0.0.0/8''))"
  by code_simp

text \<open>
  Claim C2, amended. For a trie built by inserting a list of valid prefixes into an
  empty trie, and a valid prefix whose key is among the inserted ones: inserting it
  again with a new record succeeds; every address that the prefix contains and that no
  longer inserted prefix contains is then looked up to the new record; and the count,
  which is the number of successful \<^verbatim>\<open>Insert\<close> calls, goes up by one on this insert
  too.
\<close>

theorem Insert_again_overwrites:
  assumes built: "insertAll (NewTrie isIPv6) ps = Inr t"
    and valid: "\<forall>pd \<in> set ps. validPrefix isIPv6 (fst pd)"
    and present: "prefixKey p \<in> set (map (prefixKey \<circ> fst) ps)"
    and vp: "validPrefix isIPv6 p"
  shows "\<exists>t'. Insert t p d = Inr t'
     \<and> Count t = length ps \<and> Count t' = length ps + 1
     \<and> (\<forall>a. Is6 a = isIPv6 \<and> contains p a
              \<and> (\<forall>pd' \<in> set ps. contains (fst pd') a \<longrightarrow> Bits (fst pd') \<le> Bits p)
           \<longrightarrow> Lookup t' a = Some d)"
  using Insert_after_insertAll [OF built valid vp] by simp

theorem Insert_again_overwrites_witness:
  "map_sum id (\<lambda>t. (Count t, Lookup t (mkAddr4 [10, 5, 5, 5])))
     (case insertAll (NewTrie False) [(net10, mkData ''ZZ'' ''10.0.0.0/8'')] of
        Inl e \<Rightarrow> Inl e
      | Inr t \<Rightarrow> Insert t net10 (mkData ''XX'' ''10.0.0.0/8''))
   = Inr (2, Some (mkData ''XX'' ''10.0.0.0/8''))"
proof -
  let ?ps = "[(net10, mkData ''ZZ'' ''10.0.0.0/8'')]"
  have v: "\<forall>pd \<in> set ?ps. validPrefix False (fst pd)" by code_simp
  have vp: "validPrefix False net10" by code_simp
  have pr: "prefixKey net10 \<in> set (map (prefixKey \<circ> fst) ?ps)" by simp
  from insertAll_steps [of "NewTrie False" ?ps] v obtain t where
    t: "insertAll (NewTrie False) ?ps = Inr t" by auto
  from Insert_again_overwrites [OF t v pr vp, of "mkData ''XX'' ''10.0.0.0/8''"] obtain t' where
    t': "Insert t net10 (mkData ''XX'' ''10.0.0.0/8'') = Inr t'" "Count t' = length ?ps + 1"
    and look: "\<forall>a. Is6 a = False \<and> contains net10 a
              \<and> (\<forall>pd' \<in> set ?ps. contains (fst pd') a \<longrightarrow> Bits (fst pd') \<le> Bits net10)
           \<longrightarrow> Lookup t' a = Some (mkData ''XX'' ''10.0.0.0/8'')"
    by blast
  have "Is6 (mkAddr4 [10, 5, 5, 5]) = False" by (simp add: mkAddr4_def)
  moreover have "contains net10 (mkAddr4 [10, 5, 5, 5])" by code_simp
  moreover have "\<forall>pd' \<in> set ?ps. contains (fst pd') (mkAddr4 [10, 5, 5, 5])
                   \<longrightarrow> Bits (fst pd') \<le> Bits net10"
    by simp
  ultimately have "Lookup t' (mkAddr4 [10, 5, 5, 5]) = Some (mkData ''XX'' ''10.0.0.0/8'')"
    using look by blast
  with t t' show ?thesis by simp
qed

subsection \<open>InsertCIDR\<close>

lemma bit_keepHigh: "bit (keepHigh m b) q = (8 - m \<le> q \<and> bit b q)"
  by (auto simp add: keepHigh_def bit_simps dest: bit_imp_le_length)

lemma length_maskBytes [simp]: "length (maskBytes bs n) = length bs"
  by (simp add: maskBytes_def)

lemma getBit_maskBytes:
  "getBit (maskBytes bs n) i = (if i < n then getBit bs i else 0)"
proof (cases "i div 8 < length bs")
  case False
  then show ?thesis by (simp add: getBit_bit)
next
  case True
  let ?j = "i div 8"
  have i: "i = 8 * ?j + i mod 8" by simp
  have lo: "8 * ?j \<le> i" and hi: "i < 8 * (?j + 1)" by auto
  have nth: "maskBytes bs n ! ?j =
      (if 8 * (?j + 1) \<le> n then bs ! ?j
       else if n \<le> 8 * ?j then 0
       else keepHigh (n - 8 * ?j) (bs ! ?j))"
    using True by (simp add: maskBytes_def)
  consider (full) "8 * (?j + 1) \<le> n" | (none) "n \<le> 8 * ?j"
    | (part) "\<not> 8 * (?j + 1) \<le> n" "\<not> n \<le> 8 * ?j"
    by blast
  then show ?thesis
  proof cases
    case full
    then have "i < n" using hi by linarith
    with full True nth show ?thesis by (simp add: getBit_bit)
  next
    case none
    then have "\<not> i < n" using lo by linarith
    moreover have "maskBytes bs n ! ?j = 0" using none nth by auto
    ultimately show ?thesis using True by (simp add: getBit_bit)
  next
    case part
    define mm where "mm = n - 8 * ?j"
    have m: "maskBytes bs n ! ?j = keepHigh mm (bs ! ?j)" using part nth by (simp add: mm_def)
    have "(i < n) = (i mod 8 < mm)" unfolding mm_def using i part by linarith
    also have "\<dots> = (8 - mm \<le> 7 - i mod 8)" unfolding mm_def using part by linarith
    finally have e: "(i < n) = (8 - mm \<le> 7 - i mod 8)" .
    show ?thesis using True by (simp add: getBit_bit m bit_keepHigh e)
  qed
qed

lemma prefixKey_Masked [simp]: "prefixKey (Masked p) = prefixKey p"
  by (simp add: prefixKey_def Masked_def prefixToBits_def bitsOf_eq_iff getBit_maskBytes)

lemma Bits_Masked [simp]: "Bits (Masked p) = Bits p"
  by (simp add: Masked_def)

lemma Is6_Masked [simp]: "Is6 (PAddr (Masked p)) = Is6 (PAddr p)"
  by (simp add: Masked_def)

lemma validPrefix_Masked [simp]: "validPrefix v (Masked p) = validPrefix v p"
  by (simp add: validPrefix_def)

lemma contains_Masked [simp]: "contains (Masked p) a = contains p a"
  by (simp add: contains_def)

text \<open>
  Claim C8 (CIDR text). On a trie built by inserts: when the parser rejects the text
  (a malformed address, a length outside the family's range) \<^verbatim>\<open>InsertCIDR\<close> returns
  the invalid-CIDR error; when the parser accepts it, the insert succeeds whatever the
  host bits are, the prefix is stored under its masked form (same leading bits, every
  later bit zero), and an address it contains, with no longer stored prefix containing
  it, is looked up to the upper-cased country code and the text of the masked prefix.
\<close>

theorem InsertCIDR_masks_host_bits:
  assumes built: "insertAll (NewTrie isIPv6) ps = Inr t"
    and valid: "\<forall>pd \<in> set ps. validPrefix isIPv6 (fst pd)"
  shows "(parsePrefix cidr = None \<longrightarrow>
            InsertCIDR parsePrefix prefixString t cidr countryCode = Inl ErrInvalidCIDR)
     \<and> (\<forall>p. parsePrefix cidr = Some p \<and> validPrefix isIPv6 p \<longrightarrow>
           (\<exists>t'. InsertCIDR parsePrefix prefixString t cidr countryCode = Inr t'
              \<and> (\<forall>a. Is6 a = isIPv6 \<and> contains p a
                       \<and> (\<forall>pd' \<in> set ps. contains (fst pd') a \<longrightarrow> Bits (fst pd') \<le> Bits p)
                    \<longrightarrow> Lookup t' a = Some \<lparr>CountryCode = ToUpper countryCode,
                                             PrefixStr = prefixString (Masked p)\<rparr>))
           \<and> prefixKey (Masked p) = prefixKey p
           \<and> (\<forall>i. Bits p \<le> i \<longrightarrow> getBit (prefixToBits (Masked p)) i = 0))"
proof (intro conjI allI impI)
  assume "parsePrefix cidr = None"
  then show "InsertCIDR parsePrefix prefixString t cidr countryCode = Inl ErrInvalidCIDR"
    by (simp add: InsertCIDR_def)
next
  fix p assume p: "parsePrefix cidr = Some p \<and> validPrefix isIPv6 p"
  let ?d = "\<lparr>CountryCode = ToUpper countryCode, PrefixStr = prefixString (Masked p)\<rparr>"
  have vm: "validPrefix isIPv6 (Masked p)" using p by simp
  have r: "InsertCIDR parsePrefix prefixString t cidr countryCode = Insert t (Masked p) ?d"
    using p by (simp add: InsertCIDR_def)
  from Insert_after_insertAll [OF built valid vm, of ?d]
  show "\<exists>t'. InsertCIDR parsePrefix prefixString t cidr countryCode = Inr t'
              \<and> (\<forall>a. Is6 a = isIPv6 \<and> contains p a
                       \<and> (\<forall>pd' \<in> set ps. contains (fst pd') a \<longrightarrow> Bits (fst pd') \<le> Bits p)
                    \<longrightarrow> Lookup t' a = Some ?d)"
    unfolding r by (simp, blast)
next
  fix p :: NetPrefix
  show "prefixKey (Masked p) = prefixKey p" by simp
next
  fix p :: NetPrefix and i assume "Bits p \<le> i"
  then show "getBit (prefixToBits (Masked p)) i = 0"
    by (simp add: Masked_def prefixToBits_def getBit_maskBytes)
qed

lemma parse_8887: "parsePrefix4 ''8.8.8.7/24'' = Some (mkPrefix4 [8, 8, 8, 7] 24)"
  by code_simp

lemma show_8880: "prefixString4 (Masked (mkPrefix4 [8, 8, 8, 7] 24)) = ''8.8.8.0/24''"
  by code_simp

theorem InsertCIDR_masks_host_bits_witness:
  "map_sum id (\<lambda>t. Lookup t (mkAddr4 [8, 8, 8, 8]))
     (InsertCIDR parsePrefix4 prefixString4 (NewTrie False) ''8.8.8.7/24'' ''us'')
   = Inr (Some (mkData ''US'' ''8.8.8.0/24''))
   \<and> InsertCIDR parsePrefix4 prefixString4 (NewTrie False) ''8.8.8.8/33'' ''us''
     = Inl ErrInvalidCIDR
   \<and> InsertCIDR parsePrefix4 prefixString4 (NewTrie False) ''256.256.256.0/24'' ''us''
     = Inl ErrInvalidCIDR"
proof -
  have b: "insertAll (NewTrie False) [] = Inr (NewTrie False)" by simp
  have v: "\<forall>pd \<in> set ([] :: (NetPrefix \<times> PrefixData) list). validPrefix False (fst pd)" by simp
  note T = InsertCIDR_masks_host_bits [OF b v, of parsePrefix4 _ prefixString4 "''us''"]
  have vp: "validPrefix False (mkPrefix4 [8, 8, 8, 7] 24)" by code_simp
  from T [of "''8.8.8.7/24''"] parse_8887 vp obtain t' where
    t': "InsertCIDR parsePrefix4 prefixString4 (NewTrie False) ''8.8.8.7/24'' ''us'' = Inr t'"
    and look: "\<forall>a. Is6 a = False \<and> contains (mkPrefix4 [8, 8, 8, 7] 24) a
                 \<longrightarrow> Lookup t' a = Some \<lparr>CountryCode = ToUpper ''us'',
                        PrefixStr = prefixString4 (Masked (mkPrefix4 [8, 8, 8, 7] 24))\<rparr>"
    by auto
  have "Is6 (mkAddr4 [8, 8, 8, 8]) = False" by (simp add: mkAddr4_def)
  moreover have "contains (mkPrefix4 [8, 8, 8, 7] 24) (mkAddr4 [8, 8, 8, 8])" by code_simp
  moreover have "ToUpper ''us'' = ''US''" by code_simp
  ultimately have "Lookup t' (mkAddr4 [8, 8, 8, 8]) = Some (mkData ''US'' ''8.8.8.0/24'')"
    using look show_8880 by (simp add: mkData_def)
  moreover have "parsePrefix4 ''8.8.8.8/33'' = None" by code_simp
  moreover have "parsePrefix4 ''256.256.256.0/24'' = None" by code_simp
  ultimately show ?thesis
    using t' T [of "''8.8.8.8/33''"] T [of "''256.256.256.0/24''"] by simp
qed

section \<open>Properties of the snapshot manager\<close>

lemmas path_defs =
  SnapshotsDir_def SnapshotDir_def GetSnapshotDir_def LatestSnapshotPath_def MetadataPath_def
  pathJoin_def SnapshotsDirName_def LatestSymlink_def MetadataFileName_def LoadMetadata_def
  resolveLink_def IsAbs_def

lemma last_sorted_Max:
  fixes xs :: "'a::linorder list"
  shows "sorted xs \<Longrightarrow> xs \<noteq> [] \<Longrightarrow> last xs = Max (set xs)"
proof (induction xs)
  case Nil
  then show ?case by simp
next
  case (Cons x xs)
  show ?case
  proof (cases "xs = []")
    case True
    then show ?thesis by simp
  next
    case False
    from Cons.prems have s: "sorted xs" and le: "\<forall>y\<in>set xs. x \<le> y" by simp_all
    from False have "Max (set xs) \<in> set xs" by simp
    with le have "x \<le> Max (set xs)" by blast
    moreover have "last xs = Max (set xs)" using Cons.IH s False by simp
    ultimately show ?thesis using False by (simp add: max_absorb2)
  qed
qed

lemma hd_rev_sort_Max:
  fixes ds :: "string list"
  assumes "ds \<noteq> []"
  shows "hd (rev (sort ds)) = Max (set ds)"
proof -
  have "set (sort ds) = set ds" by simp
  with assms have "sort ds \<noteq> []" by (metis set_empty)
  then show ?thesis
    using last_sorted_Max [of "sort ds"] by (simp add: hd_rev)
qed

lemma sort_two_dates:
  "sort [''2025-01-01'', ''2025-02-01''] = [''2025-01-01'', ''2025-02-01'']"
  by code_simp

lemma Max_two_dates: "Max (set [''2025-01-01'', ''2025-02-01'']) = ''2025-02-01''"
proof -
  have "hd (rev (sort [''2025-01-01'', ''2025-02-01''])) = ''2025-02-01''"
    by (simp add: sort_two_dates)
  then show ?thesis
    using hd_rev_sort_Max [of "[''2025-01-01'', ''2025-02-01'']"] by simp
qed

text \<open>
  Claim C7 (listing). \<^verbatim>\<open>ListSnapshots\<close> keeps every directory entry other than
  \<^verbatim>\<open>latest\<close> whose name has ten characters and two hyphens, wherever the hyphens are:
  the directory \<^verbatim>\<open>20250-1-15\<close>, with hyphens at positions 5 and 7, is listed.
\<close>

theorem ListSnapshots_lists_misplaced_hyphens:
  "ListSnapshots fsOddName ''/c'' = Inr [''20250-1-15'']"
  by (simp add: ListSnapshots_def fsOddName_def path_defs)

text \<open>
  Claim C6 (latest snapshot), as stated, fails: without a usable link the code tries
  only the greatest listed date. In \<open>fsGap\<close> the snapshot of 2025-01-01 has metadata
  that loads, and the rules as worded return it, but \<^verbatim>\<open>GetLatestSnapshot\<close> returns the
  load error of the directory 2025-02-01.
\<close>

theorem GetLatestSnapshot_no_skip_counterexample:
  "GetLatestSnapshot fsGap ''/c'' = Inl (ErrLoadMetadata ''2025-02-01'')
   \<and> spec_get_latest fsGap ''/c'' = Inr (''/c/snapshots/2025-01-01'', meta0)"
  by (simp add: GetLatestSnapshot_def spec_get_latest_def ListSnapshots_def fsGap_def
      path_defs sort_two_dates)

text \<open>
  Claim C6, amended. (a) If the latest link can be read and the metadata of its target
  (taken relative to the snapshots directory unless absolute) loads, that snapshot is
  returned. Otherwise the listing decides: (b) when it is not empty, the greatest listed
  date is the only one tried: its snapshot is returned if its metadata loads, and a
  load error naming that date is returned if not; (c) when it is empty the result is
  the no-snapshots error; a listing that fails is returned as its error.
\<close>

theorem GetLatestSnapshot_resolution:
  "(\<forall>target meta.
      readlink fs (LatestSnapshotPath cacheDir) = Some target \<and>
      LoadMetadata fs (MetadataPath (resolveLink cacheDir target)) = Some meta
      \<longrightarrow> GetLatestSnapshot fs cacheDir = Inr (resolveLink cacheDir target, meta))
   \<and> ((\<forall>target. readlink fs (LatestSnapshotPath cacheDir) = Some target
          \<longrightarrow> LoadMetadata fs (MetadataPath (resolveLink cacheDir target)) = None)
        \<longrightarrow> (case ListSnapshots fs cacheDir of
               Inl e \<Rightarrow> GetLatestSnapshot fs cacheDir = Inl e
             | Inr snapshots \<Rightarrow>
                 (snapshots = [] \<longrightarrow> GetLatestSnapshot fs cacheDir = Inl ErrNoSnapshots)
                 \<and> (snapshots \<noteq> [] \<longrightarrow>
                      GetLatestSnapshot fs cacheDir =
                        (case LoadMetadata fs
                                (MetadataPath (GetSnapshotDir cacheDir (Max (set snapshots)))) of
                           None \<Rightarrow> Inl (ErrLoadMetadata (Max (set snapshots)))
                         | Some meta \<Rightarrow>
                             Inr (GetSnapshotDir cacheDir (Max (set snapshots)), meta)))))"
proof (intro conjI allI impI)
  fix target meta
  assume "readlink fs (LatestSnapshotPath cacheDir) = Some target \<and>
      LoadMetadata fs (MetadataPath (resolveLink cacheDir target)) = Some meta"
  then show "GetLatestSnapshot fs cacheDir = Inr (resolveLink cacheDir target, meta)"
    by (simp add: GetLatestSnapshot_def resolveLink_def)
next
  assume nolink: "\<forall>target. readlink fs (LatestSnapshotPath cacheDir) = Some target
          \<longrightarrow> LoadMetadata fs (MetadataPath (resolveLink cacheDir target)) = None"
  have fallback: "GetLatestSnapshot fs cacheDir =
      (case ListSnapshots fs cacheDir of
         Inl e \<Rightarrow> Inl e
       | Inr snapshots \<Rightarrow>
           if length snapshots = 0 then Inl ErrNoSnapshots
           else
             let latestDate = hd (rev (sort snapshots));
                 dir = GetSnapshotDir cacheDir latestDate
             in case LoadMetadata fs (MetadataPath dir) of
                  None \<Rightarrow> Inl (ErrLoadMetadata latestDate)
                | Some meta \<Rightarrow> Inr (dir, meta))"
  proof (cases "readlink fs (LatestSnapshotPath cacheDir)")
    case None
    then show ?thesis by (simp add: GetLatestSnapshot_def)
  next
    case (Some target)
    with nolink have "LoadMetadata fs (MetadataPath (resolveLink cacheDir target)) = None"
      by simp
    with Some show ?thesis by (simp add: GetLatestSnapshot_def resolveLink_def)
  qed
  show "case ListSnapshots fs cacheDir of
          Inl e \<Rightarrow> GetLatestSnapshot fs cacheDir = Inl e
        | Inr snapshots \<Rightarrow>
            (snapshots = [] \<longrightarrow> GetLatestSnapshot fs cacheDir = Inl ErrNoSnapshots)
            \<and> (snapshots \<noteq> [] \<longrightarrow>
                 GetLatestSnapshot fs cacheDir =
                   (case LoadMetadata fs
                           (MetadataPath (GetSnapshotDir cacheDir (Max (set snapshots)))) of
                      None \<Rightarrow> Inl (ErrLoadMetadata (Max (set snapshots)))
                    | Some meta \<Rightarrow>
                        Inr (GetSnapshotDir cacheDir (Max (set snapshots)), meta)))"
  proof (cases "ListSnapshots fs cacheDir")
    case (Inl e)
    then show ?thesis using fallback by simp
  next
    case (Inr snapshots)
    then show ?thesis using fallback by (simp add: hd_rev_sort_Max Let_def)
  qed
qed

theorem GetLatestSnapshot_resolution_witness:
  "GetLatestSnapshot fsLinked ''/c'' = Inr (''/c/snapshots/2025-01-01'', meta0)
   \<and> GetLatestSnapshot fsGap ''/c'' = Inl (ErrLoadMetadata ''2025-02-01'')
   \<and> GetLatestSnapshot fsEmpty ''/c'' = Inl ErrNoSnapshots"
proof (intro conjI)
  have "readlink fsLinked (LatestSnapshotPath ''/c'') = Some ''2025-01-01'' \<and>
        LoadMetadata fsLinked (MetadataPath (resolveLink ''/c'' ''2025-01-01'')) = Some meta0"
    by (simp add: fsLinked_def fsGap_def path_defs)
  with GetLatestSnapshot_resolution [of fsLinked "''/c''"]
  have "GetLatestSnapshot fsLinked ''/c'' = Inr (resolveLink ''/c'' ''2025-01-01'', meta0)"
    by blast
  then show "GetLatestSnapshot fsLinked ''/c'' = Inr (''/c/snapshots/2025-01-01'', meta0)"
    by (simp add: path_defs)
next
  have nolink: "\<forall>target. readlink fsGap (LatestSnapshotPath ''/c'') = Some target
          \<longrightarrow> LoadMetadata fsGap (MetadataPath (resolveLink ''/c'' target)) = None"
    by (simp add: fsGap_def)
  have ls: "ListSnapshots fsGap ''/c'' = Inr [''2025-01-01'', ''2025-02-01'']"
    by (simp add: ListSnapshots_def fsGap_def path_defs)
  from GetLatestSnapshot_resolution [of fsGap "''/c''"] nolink ls
  have "GetLatestSnapshot fsGap ''/c'' =
          (case LoadMetadata fsGap (MetadataPath (GetSnapshotDir ''/c''
                  (Max (set [''2025-01-01'', ''2025-02-01''])))) of
             None \<Rightarrow> Inl (ErrLoadMetadata (Max (set [''2025-01-01'', ''2025-02-01''])))
           | Some meta \<Rightarrow>
               Inr (GetSnapshotDir ''/c'' (Max (set [''2025-01-01'', ''2025-02-01''])), meta))"
    by simp
  then show "GetLatestSnapshot fsGap ''/c'' = Inl (ErrLoadMetadata ''2025-02-01'')"
    by (simp only: Max_two_dates) (simp add: fsGap_def path_defs)
next
  have nolink: "\<forall>target. readlink fsEmpty (LatestSnapshotPath ''/c'') = Some target
          \<longrightarrow> LoadMetadata fsEmpty (MetadataPath (resolveLink ''/c'' target)) = None"
    by (simp add: fsEmpty_def)
  have ls: "ListSnapshots fsEmpty ''/c'' = Inr []"
    by (simp add: ListSnapshots_def fsEmpty_def path_defs)
  from GetLatestSnapshot_resolution [of fsEmpty "''/c''"] nolink ls
  show "GetLatestSnapshot fsEmpty ''/c'' = Inl ErrNoSnapshots"
    by simp
qed

end
